theory Spec2Isabelle
  imports Main "HOL-Library.Sublist" "HOL-Library.Char_ord" "HOL-Library.Signed_Division"
    "HOL-Library.Log_Nat"
begin

section \<open>Data model\<close>

text \<open>
  Go strings are byte sequences; \<open>string\<close> (a list of 8-bit characters) is used for them,
  and \<open>length\<close> is Go's \<open>len\<close>. Points in time (\<open>time.Time\<close>) are integers counting
  nanoseconds since the epoch.
\<close>

subsection \<open>Errors (cert\_check.go)\<close>

text \<open>
  The two errors a \<open>context.Context\<close> can report: \<open>context.Canceled\<close> and
  \<open>context.DeadlineExceeded\<close>, with their messages.
\<close>

datatype ctx_error = Canceled | DeadlineExceeded

fun ctx_error_string :: "ctx_error \<Rightarrow> string" where
  "ctx_error_string Canceled = ''context canceled''"
| "ctx_error_string DeadlineExceeded = ''context deadline exceeded''"

text \<open>
  The error of a library call that \<open>CheckSSLCertificate\<close> wraps with \<open>%w\<close>: either a
  failure of the network or of the protocol, kept as its message, or the report that the
  call's context ended the operation, kept as the context's error together with the
  message of the library's error.
\<close>

datatype cause =
    Failure string
  | Aborted ctx_error string

fun cause_string :: "cause \<Rightarrow> string" where
  "cause_string (Failure m) = m"
| "cause_string (Aborted e m) = m"

text \<open>
  The four sentinel errors of cert\_check.go (its later revision spells them
  \<open>ErrInvalidHostname\<close>, \<open>ErrHostnameTooLong\<close>, \<open>ErrInvalidCharacters\<close> and
  \<open>ErrEmptyHostname\<close>, with the same messages), the three errors that
  \<open>CheckSSLCertificate\<close> builds with \<open>fmt.Errorf\<close>, and the context's own error, which the
  later revision returns as it is.
\<close>

datatype error =
    InvalidHostnameErr
  | HostnameTooLongErr
  | InvalidCharactersErr
  | EmptyHostnameErr
  | ConnectError string cause
  | HandshakeError string cause
  | NoCertificatesError string
  | ContextError ctx_error

fun Error_string :: "error \<Rightarrow> string" where
  "Error_string InvalidHostnameErr = ''invalid hostname''"
| "Error_string HostnameTooLongErr = ''hostname too long''"
| "Error_string InvalidCharactersErr = ''hostname contains invalid characters''"
| "Error_string EmptyHostnameErr = ''hostname cannot be empty''"
| "Error_string (ConnectError h c) = ''failed to connect to '' @ h @ '': '' @ cause_string c"
| "Error_string (HandshakeError h c)
     = ''TLS handshake failed for '' @ h @ '': '' @ cause_string c"
| "Error_string (NoCertificatesError h) = ''no certificates found for '' @ h"
| "Error_string (ContextError e) = ctx_error_string e"


subsection \<open>Certificates, tasks and results\<close>

record SSLCertificate =
  Hostname :: string
  ExpiryDate :: int
  TimeLeft :: int

record Task =
  task_Domain :: string
  task_DomainID :: int
  task_UserID :: int

text \<open>
  \<open>Result\<close> keeps Go's two independent nullable fields: a pointer to a certificate and
  an error interface value, each of which may be nil.
\<close>

record Result =
  res_Task :: Task
  res_Certificate :: "SSLCertificate option"
  res_Error :: "error option"
  res_CheckedAt :: int

section \<open>Hostname validator (cert\_check.go)\<close>

subsection \<open>The string functions used\<close>

text \<open>
  \<open>strings.TrimSpace\<close> removes leading and trailing white space as Unicode defines it,
  reading the string as UTF-8. A byte sequence is removed exactly when it is the UTF-8
  encoding of one of the 25 code points with the White\_Space property: U+0009 to U+000D,
  U+0020, U+0085, U+00A0, U+1680, U+2000 to U+200A, U+2028, U+2029, U+202F, U+205F and
  U+3000. Any other byte, also an invalid one, decodes to a rune that is not a space and
  stops the trimming.
\<close>

definition space_encodings :: "string list" where
  "space_encodings =
     [[CHR 0x09], [CHR 0x0A], [CHR 0x0B], [CHR 0x0C], [CHR 0x0D], [CHR 0x20],
      [CHR 0xC2, CHR 0x85], [CHR 0xC2, CHR 0xA0],
      [CHR 0xE1, CHR 0x9A, CHR 0x80],
      [CHR 0xE2, CHR 0x80, CHR 0x80], [CHR 0xE2, CHR 0x80, CHR 0x81],
      [CHR 0xE2, CHR 0x80, CHR 0x82], [CHR 0xE2, CHR 0x80, CHR 0x83],
      [CHR 0xE2, CHR 0x80, CHR 0x84], [CHR 0xE2, CHR 0x80, CHR 0x85],
      [CHR 0xE2, CHR 0x80, CHR 0x86], [CHR 0xE2, CHR 0x80, CHR 0x87],
      [CHR 0xE2, CHR 0x80, CHR 0x88], [CHR 0xE2, CHR 0x80, CHR 0x89],
      [CHR 0xE2, CHR 0x80, CHR 0x8A],
      [CHR 0xE2, CHR 0x80, CHR 0xA8], [CHR 0xE2, CHR 0x80, CHR 0xA9],
      [CHR 0xE2, CHR 0x80, CHR 0xAF], [CHR 0xE2, CHR 0x81, CHR 0x9F],
      [CHR 0xE3, CHR 0x80, CHR 0x80]]"

function TrimLeftSpace :: "string \<Rightarrow> string" where
  "TrimLeftSpace s =
     (case find (\<lambda>e. prefix e s) space_encodings of
        None \<Rightarrow> s
      | Some e \<Rightarrow> TrimLeftSpace (drop (length e) s))"
  by pat_completeness auto
termination
proof (relation "measure length")
  show "wf (measure length)" by simp
next
  fix s e
  assume "find (\<lambda>e. prefix e s) space_encodings = Some e"
  then have "e \<in> set space_encodings" and "prefix e s"
    by (auto simp: find_Some_iff)
  moreover have "[] \<notin> set space_encodings"
    by (simp add: space_encodings_def)
  ultimately have "e \<noteq> []" and "length e \<le> length s"
    by (auto simp: prefix_length_le)
  then show "(drop (length e) s, s) \<in> measure length"
    by (cases e) auto
qed

function TrimRightSpace :: "string \<Rightarrow> string" where
  "TrimRightSpace s =
     (case find (\<lambda>e. suffix e s) space_encodings of
        None \<Rightarrow> s
      | Some e \<Rightarrow> TrimRightSpace (take (length s - length e) s))"
  by pat_completeness auto
termination
proof (relation "measure length")
  show "wf (measure length)" by simp
next
  fix s e
  assume "find (\<lambda>e. suffix e s) space_encodings = Some e"
  then have "e \<in> set space_encodings" and "suffix e s"
    by (auto simp: find_Some_iff)
  moreover have "[] \<notin> set space_encodings"
    by (simp add: space_encodings_def)
  ultimately have "e \<noteq> []" and "length e \<le> length s"
    by (auto simp: suffix_length_le)
  then show "(take (length s - length e) s, s) \<in> measure length"
    by (cases e) auto
qed

declare TrimLeftSpace.simps [simp del] TrimRightSpace.simps [simp del]

definition TrimSpace :: "string \<Rightarrow> string" where
  "TrimSpace s = TrimRightSpace (TrimLeftSpace s)"

text \<open>
  \<open>strings.HasPrefix\<close>, \<open>strings.HasSuffix\<close>, \<open>strings.Contains\<close> and
  \<open>strings.Split\<close> with a one-byte separator. \<open>Split\<close> never returns the empty list:
  its first equation gives one empty label, and the \<open>[]\<close> branch of the second is never
  taken.
\<close>

definition HasPrefix :: "string \<Rightarrow> string \<Rightarrow> bool" where
  "HasPrefix s p = prefix p s"

definition HasSuffix :: "string \<Rightarrow> string \<Rightarrow> bool" where
  "HasSuffix s p = suffix p s"

definition Contains :: "string \<Rightarrow> string \<Rightarrow> bool" where
  "Contains s sub = sublist sub s"

fun Split :: "string \<Rightarrow> char \<Rightarrow> string list" where
  "Split [] sep = [[]]"
| "Split (c # cs) sep =
     (case Split cs sep of
        [] \<Rightarrow> [[c]]
      | l # ls \<Rightarrow> if c = sep then [] # l # ls else (c # l) # ls)"

subsection \<open>Regular expressions\<close>

text \<open>
  The part of the \<open>regexp\<close> syntax that the hostname expression uses: character
  classes, concatenation, \<open>*\<close>, \<open>?\<close> and the bounded repetition \<open>{0,n}\<close>
  (\<open>Repeat0 r n\<close>); \<open>NoMatch\<close>, \<open>EmptyMatch\<close> and \<open>Alternate\<close> arise while matching.
  The expression is anchored by \<open>^\<close> and \<open>$\<close> (which, without flags, match only at the
  two ends of the text), so \<open>MatchString\<close> decides whether the whole string matches. It
  does so by taking the derivative of the expression by each byte in turn. A byte of a
  character outside ASCII is in none of the classes, so matching bytes agrees with
  matching runes.
\<close>

datatype regex =
    NoMatch
  | EmptyMatch
  | CharClass "char \<Rightarrow> bool"
  | Alternate regex regex
  | Concat regex regex
  | Star regex
  | Quest regex
  | Repeat0 regex nat

fun nullable :: "regex \<Rightarrow> bool" where
  "nullable NoMatch = False"
| "nullable EmptyMatch = True"
| "nullable (CharClass P) = False"
| "nullable (Alternate r s) = (nullable r \<or> nullable s)"
| "nullable (Concat r s) = (nullable r \<and> nullable s)"
| "nullable (Star r) = True"
| "nullable (Quest r) = True"
| "nullable (Repeat0 r n) = True"

fun deriv :: "char \<Rightarrow> regex \<Rightarrow> regex" where
  "deriv c NoMatch = NoMatch"
| "deriv c EmptyMatch = NoMatch"
| "deriv c (CharClass P) = (if P c then EmptyMatch else NoMatch)"
| "deriv c (Alternate r s) = Alternate (deriv c r) (deriv c s)"
| "deriv c (Concat r s) =
     (if nullable r then Alternate (Concat (deriv c r) s) (deriv c s)
      else Concat (deriv c r) s)"
| "deriv c (Star r) = Concat (deriv c r) (Star r)"
| "deriv c (Quest r) = deriv c r"
| "deriv c (Repeat0 r 0) = NoMatch"
| "deriv c (Repeat0 r (Suc n)) = Concat (deriv c r) (Repeat0 r n)"

definition MatchString :: "regex \<Rightarrow> string \<Rightarrow> bool" where
  "MatchString re s = nullable (fold deriv s re)"

text \<open>
  The classes \<open>[a-zA-Z0-9]\<close> and \<open>[a-zA-Z0-9\-]\<close>, the expression for one label,
  \<open>[a-zA-Z0-9]([a-zA-Z0-9\-]{0,61}[a-zA-Z0-9])?\<close>, and the whole expression: a label
  followed by any number of \<open>\.\<close>label.
\<close>

definition in_range :: "char \<Rightarrow> char \<Rightarrow> char \<Rightarrow> bool" where
  "in_range lo hi c = (lo \<le> c \<and> c \<le> hi)"

definition alnum :: "char \<Rightarrow> bool" where
  "alnum c = (in_range CHR ''a'' CHR ''z'' c \<or> in_range CHR ''A'' CHR ''Z'' c
              \<or> in_range CHR ''0'' CHR ''9'' c)"

definition alnum_hyphen :: "char \<Rightarrow> bool" where
  "alnum_hyphen c = (in_range CHR ''a'' CHR ''z'' c \<or> in_range CHR ''A'' CHR ''Z'' c
              \<or> in_range CHR ''0'' CHR ''9'' c \<or> c = CHR ''-'')"

definition label_regex :: regex where
  "label_regex =
     Concat (CharClass alnum)
       (Quest (Concat (Repeat0 (CharClass alnum_hyphen) 61) (CharClass alnum)))"

definition validHostnameRegex :: regex where
  "validHostnameRegex =
     Concat label_regex (Star (Concat (CharClass (\<lambda>c. c = CHR ''.'')) label_regex))"

subsection \<open>ValidateHostname\<close>

text \<open>
  The loop over the labels, then the function itself with its checks in the order of the
  source. \<open>None\<close> is the nil error.
\<close>

fun check_labels :: "string list \<Rightarrow> error option" where
  "check_labels [] = None"
| "check_labels (label # labels) =
     (if length label = 0 \<or> length label > 63 then Some InvalidHostnameErr
      else if HasPrefix label ''-'' \<or> HasSuffix label ''-'' then Some InvalidHostnameErr
      else check_labels labels)"

definition ValidateHostname :: "string \<Rightarrow> error option" where
  "ValidateHostname hostname =
     (if TrimSpace hostname = [] then Some EmptyHostnameErr
      else if length hostname > 253 then Some HostnameTooLongErr
      else if \<not> MatchString validHostnameRegex hostname then Some InvalidCharactersErr
      else if Contains hostname ''..'' then Some InvalidHostnameErr
      else if HasPrefix hostname ''.'' \<or> HasSuffix hostname ''.'' \<or>
              HasPrefix hostname ''-'' \<or> HasSuffix hostname ''-'' then Some InvalidHostnameErr
      else check_labels (Split hostname CHR ''.''))"

text \<open>
  \<open>NewHostname\<close> returns the empty hostname with the error, or the validated hostname
  with nil; \<open>IsValid\<close> validates again.
\<close>

definition NewHostname :: "string \<Rightarrow> string \<times> error option" where
  "NewHostname hostname =
     (case ValidateHostname hostname of
        Some err \<Rightarrow> ([], Some err)
      | None \<Rightarrow> (hostname, None))"

definition IsValid :: "string \<Rightarrow> bool" where
  "IsValid h = (ValidateHostname h = None)"

section \<open>Time and float64 arithmetic\<close>

subsection \<open>Rounding to float64\<close>

text \<open>
  A float64 value is kept as the rational it denotes, and each float64 operation is the
  exact operation followed by \<open>f64\<close>: rounding to the nearest number with a 53-bit
  significand, ties to even. \<open>rne\<close> rounds to the nearest integer, ties to even;
  \<open>ilog2 x\<close> is the exponent \<open>e\<close> with \<open>2^e \<le> x < 2^(e+1)\<close> for positive \<open>x\<close>, found
  from the bit lengths of numerator and denominator. The exponent range of float64 is
  not modelled: every value that arises below is zero or has a magnitude between
  \<open>2^-47\<close> and \<open>2^42\<close>.
\<close>

definition rne :: "rat \<Rightarrow> int" where
  "rne x =
     (let f = \<lfloor>x\<rfloor>; r = x - of_int f
      in if r < 1 / 2 then f else if 1 / 2 < r then f + 1 else if even f then f else f + 1)"

definition ilog2 :: "rat \<Rightarrow> int" where
  "ilog2 x =
     (let (p, q) = quotient_of x;
          e = bitlen p - bitlen q
      in if power_int 2 e \<le> x then e else e - 1)"

definition f64 :: "rat \<Rightarrow> rat" where
  "f64 x =
     (if x = 0 then 0
      else let u = power_int 2 (ilog2 \<bar>x\<bar> - 52) in of_int (rne (x / u)) * u)"

subsection \<open>Durations\<close>

text \<open>
  A \<open>time.Duration\<close> is a signed 64-bit count of nanoseconds. \<open>Time.Sub\<close> saturates at
  the least and greatest duration, and \<open>time.Until t\<close> is \<open>t.Sub(time.Now())\<close>.
\<close>

definition minDuration :: int where "minDuration = - (2 ^ 63)"
definition maxDuration :: int where "maxDuration = 2 ^ 63 - 1"

definition Sub :: "int \<Rightarrow> int \<Rightarrow> int" where
  "Sub t u = (if t - u < minDuration then minDuration
              else if maxDuration < t - u then maxDuration else t - u)"

definition Until :: "int \<Rightarrow> int \<Rightarrow> int" where
  "Until now t = Sub t now"

text \<open>
  \<open>Duration.Hours\<close>: \<open>hour := d / Hour; nsec := d % Hour;
  return float64(hour) + float64(nsec)/(60*60*1e9)\<close>. Go's integer division truncates
  toward zero and the remainder has the sign of the dividend (\<open>sdiv\<close>, \<open>smod\<close>).
\<close>

definition Hour :: int where "Hour = 3600000000000"

definition Hours :: "int \<Rightarrow> rat" where
  "Hours d =
     (let hour = d sdiv Hour; nsec = d smod Hour
      in f64 (f64 (of_int hour) + f64 (f64 (of_int nsec) / 3600000000000)))"

text \<open>
  The conversion of a float64 to \<open>int\<close> discards the fraction (truncation toward zero).
\<close>

definition float_to_int :: "rat \<Rightarrow> int" where
  "float_to_int x = (if 0 \<le> x then \<lfloor>x\<rfloor> else \<lceil>x\<rceil>)"

text \<open>
  Line 139 of cert\_check.go, the same in both revisions of the file:
  \<open>timeLeft := TimeLeft(time.Until(cert.NotAfter).Hours() / 24)\<close>, with the current time as a
  parameter.
\<close>

definition timeLeft :: "int \<Rightarrow> int \<Rightarrow> int" where
  "timeLeft now notAfter = float_to_int (f64 (Hours (Until now notAfter) / 24))"

section \<open>Certificate prober\<close>

text \<open>
  The source holds two revisions of \<open>CheckSSLCertificate\<close>. The one in cert\_check.go
  (lines 102 to 152) calls \<open>net.DialTimeout\<close> and \<open>client.Handshake()\<close> and never reads
  its context. The later one, which follows the tests in ssl\_service\_test.go and is the
  one that the worker pool and the tests are written against (they name its type
  \<open>SSLCertificate\<close>), calls \<open>dialer.DialContext(ctx, ...)\<close> and
  \<open>client.HandshakeContext(ctx)\<close> and checks \<open>ctx.Err()\<close> after the handshake. Both are
  given here; \<open>CheckSSLCertificate\<close> is the later one and \<open>CheckSSLCertificate_legacy\<close> the
  one of cert\_check.go.
\<close>

subsection \<open>Environment\<close>

text \<open>
  What the prober meets outside the program: the clock, read when the handshake verifies
  the certificate chain, by \<open>time.Until\<close>, and when the \<open>Result\<close> is built; and the
  network. \<open>dial addr\<close> is the error with which a TCP connection to \<open>addr\<close> fails
  (\<open>None\<close>: the connection is established), \<open>handshake name\<close> the error with which the TLS
  handshake with that server name fails for a reason other than the validity period of
  the server's certificate, \<open>peer_certificates name\<close> the chain the server presents. The
  messages of the errors that the libraries build themselves are the environment's too:
  \<open>dial_aborted addr e\<close> for a dial ended by its context, \<open>verify_failed name\<close> for a
  certificate outside its validity period.
\<close>

record x509_Certificate =
  NotBefore :: int
  NotAfter :: int

text \<open>
  A \<open>context.Context\<close> as one call of the prober sees it: it never ends during the call,
  or it ends, with one of the two errors, at some point of the call: before the call,
  while the dial is in progress, while the handshake is in progress, or after the
  handshake and before \<open>ctx.Err()\<close> is read. Once ended it stays so: \<open>ctx_Err ctx p\<close> is
  what \<open>ctx.Err()\<close> returns at point \<open>p\<close>.
\<close>

datatype phase = BeforeCall | DuringDial | DuringHandshake | AfterHandshake

fun phase_index :: "phase \<Rightarrow> nat" where
  "phase_index BeforeCall = 0"
| "phase_index DuringDial = 1"
| "phase_index DuringHandshake = 2"
| "phase_index AfterHandshake = 3"

datatype Context = Never | Fires phase ctx_error

fun ctx_Err :: "Context \<Rightarrow> phase \<Rightarrow> ctx_error option" where
  "ctx_Err Never p = None"
| "ctx_Err (Fires q e) p = (if phase_index q \<le> phase_index p then Some e else None)"

record net_env =
  now_handshake :: int
  now_until :: int
  now_checked :: int
  dial :: "string \<Rightarrow> string option"
  dial_aborted :: "string \<Rightarrow> ctx_error \<Rightarrow> string"
  handshake :: "string \<Rightarrow> string option"
  verify_failed :: "string \<Rightarrow> string"
  peer_certificates :: "string \<Rightarrow> x509_Certificate list"
  task_context :: Context

subsection \<open>Library calls\<close>

text \<open>
  What a call does on the network, in order: a TCP connection attempt, a TLS handshake,
  and the two deferred \<open>Close\<close> calls, which run last in, first out.
\<close>

datatype net_action =
    Connect string
  | TLSHandshake string
  | CloseClient
  | CloseConn

text \<open>
  \<open>net.JoinHostPort\<close> puts the host in brackets if it contains a colon.
\<close>

definition JoinHostPort :: "string \<Rightarrow> string \<Rightarrow> string" where
  "JoinHostPort host port =
     (if CHR '':'' \<in> set host then ''['' @ host @ '']:'' @ port
      else host @ '':'' @ port)"

text \<open>
  \<open>net.DialTimeout("tcp", addr, 10s)\<close>: a connection attempt, whose outcome is the
  network's. Each library call is given with the network actions it performs and its
  error.
\<close>

definition DialTimeout :: "net_env \<Rightarrow> string \<Rightarrow> net_action list \<times> cause option" where
  "DialTimeout env addr = ([Connect addr], map_option Failure (dial env addr))"

text \<open>
  \<open>dialer.DialContext(ctx, "tcp", addr)\<close> with the same timeout. As package net
  documents, a context that ends before the connection is complete makes the call return
  an error; a context that has ended already is seen before any connection is attempted.
\<close>

definition DialContext ::
  "net_env \<Rightarrow> Context \<Rightarrow> string \<Rightarrow> net_action list \<times> cause option" where
  "DialContext env ctx addr =
     (case ctx_Err ctx BeforeCall of
        Some e \<Rightarrow> ([], Some (Aborted e (dial_aborted env addr e)))
      | None \<Rightarrow>
         (case ctx_Err ctx DuringDial of
            Some e \<Rightarrow> ([Connect addr], Some (Aborted e (dial_aborted env addr e)))
          | None \<Rightarrow> DialTimeout env addr))"

text \<open>
  \<open>client.Handshake()\<close> with a configuration that names the server and nothing else. The
  handshake verifies the chain the server presents at the current time: crypto/x509
  rejects a certificate when the time is before its \<open>NotBefore\<close> or after its \<open>NotAfter\<close>.
\<close>

definition Handshake :: "net_env \<Rightarrow> string \<Rightarrow> net_action list \<times> cause option" where
  "Handshake env name =
     ([TLSHandshake name],
      case handshake env name of
        Some m \<Rightarrow> Some (Failure m)
      | None \<Rightarrow>
         (case peer_certificates env name of
            [] \<Rightarrow> None
          | leaf # _ \<Rightarrow>
              if now_handshake env < NotBefore leaf \<or> NotAfter leaf < now_handshake env
              then Some (Failure (verify_failed env name))
              else None))"

text \<open>
  \<open>client.HandshakeContext(ctx)\<close>: as crypto/tls documents, a context that ends before
  the handshake is complete interrupts it, and the call returns the context's error.
\<close>

definition HandshakeContext ::
  "net_env \<Rightarrow> Context \<Rightarrow> string \<Rightarrow> net_action list \<times> cause option" where
  "HandshakeContext env ctx name =
     (case ctx_Err ctx DuringHandshake of
        Some e \<Rightarrow> ([TLSHandshake name], Some (Aborted e (ctx_error_string e)))
      | None \<Rightarrow> Handshake env name)"

subsection \<open>CheckSSLCertificate\<close>

text \<open>
  \<open>CheckSSLCertificate\<close> returns Go's pair of a certificate pointer and an error, here
  with the network actions it performed. First the later revision.
\<close>

definition CheckSSLCertificate ::
  "net_env \<Rightarrow> Context \<Rightarrow> string
     \<Rightarrow> net_action list \<times> SSLCertificate option \<times> error option" where
  "CheckSSLCertificate env ctx hostname =
     (if \<not> IsValid hostname then ([], None, Some InvalidHostnameErr)
      else
        case DialContext env ctx (JoinHostPort hostname ''443'') of
          (t1, Some c) \<Rightarrow> (t1, None, Some (ConnectError hostname c))
        | (t1, None) \<Rightarrow>
           (case HandshakeContext env ctx hostname of
              (t2, Some c) \<Rightarrow>
                (t1 @ t2 @ [CloseConn], None, Some (HandshakeError hostname c))
            | (t2, None) \<Rightarrow>
               (case ctx_Err ctx AfterHandshake of
                  Some e \<Rightarrow>
                    (t1 @ t2 @ [CloseClient, CloseConn], None, Some (ContextError e))
                | None \<Rightarrow>
                   (case peer_certificates env hostname of
                      [] \<Rightarrow>
                        (t1 @ t2 @ [CloseClient, CloseConn],
                         None, Some (NoCertificatesError hostname))
                    | cert # _ \<Rightarrow>
                        (t1 @ t2 @ [CloseClient, CloseConn],
                         Some \<lparr>Hostname = hostname, ExpiryDate = NotAfter cert,
                               TimeLeft = timeLeft (now_until env) (NotAfter cert)\<rparr>,
                         None)))))"

text \<open>
  The revision of cert\_check.go. The parameter \<open>ctx\<close> is in its signature; its body does
  not mention it.
\<close>

definition CheckSSLCertificate_legacy ::
  "net_env \<Rightarrow> Context \<Rightarrow> string
     \<Rightarrow> net_action list \<times> SSLCertificate option \<times> error option" where
  "CheckSSLCertificate_legacy env ctx hostname =
     (if \<not> IsValid hostname then ([], None, Some InvalidHostnameErr)
      else
        case DialTimeout env (JoinHostPort hostname ''443'') of
          (t1, Some c) \<Rightarrow> (t1, None, Some (ConnectError hostname c))
        | (t1, None) \<Rightarrow>
           (case Handshake env hostname of
              (t2, Some c) \<Rightarrow>
                (t1 @ t2 @ [CloseConn], None, Some (HandshakeError hostname c))
            | (t2, None) \<Rightarrow>
               (case peer_certificates env hostname of
                  [] \<Rightarrow>
                    (t1 @ t2 @ [CloseClient, CloseConn],
                     None, Some (NoCertificatesError hostname))
                | cert # _ \<Rightarrow>
                    (t1 @ t2 @ [CloseClient, CloseConn],
                     Some \<lparr>Hostname = hostname, ExpiryDate = NotAfter cert,
                           TimeLeft = timeLeft (now_until env) (NotAfter cert)\<rparr>,
                     None))))"

subsection \<open>Example environments\<close>

text \<open>
  Three environments for examples. In the first every host is reachable and presents a
  certificate that is valid from one day before the clock's time 0 until ten days after
  it, and the clock stands at 0 throughout the probe. The second is without network. The
  third is the first with a certificate that expires one second after the handshake has
  verified it, and with \<open>time.Until\<close> reading the clock one and a half seconds after the
  handshake.
\<close>

definition reachable_env :: net_env where
  "reachable_env =
     \<lparr>now_handshake = 0, now_until = 0, now_checked = 1,
      dial = (\<lambda>_. None), dial_aborted = (\<lambda>_ _. ''operation was canceled''),
      handshake = (\<lambda>_. None),
      verify_failed = (\<lambda>_. ''x509: certificate has expired or is not yet valid''),
      peer_certificates = (\<lambda>_. [\<lparr>NotBefore = - 86400000000000,
                                 NotAfter = 864000000000000\<rparr>]),
      task_context = Never\<rparr>"

definition offline_env :: net_env where
  "offline_env =
     \<lparr>now_handshake = 0, now_until = 0, now_checked = 1,
      dial = (\<lambda>_. Some ''network is unreachable''),
      dial_aborted = (\<lambda>_ _. ''operation was canceled''),
      handshake = (\<lambda>_. Some ''not connected''),
      verify_failed = (\<lambda>_. ''x509: certificate has expired or is not yet valid''),
      peer_certificates = (\<lambda>_. []),
      task_context = Never\<rparr>"

definition expiring_env :: net_env where
  "expiring_env =
     \<lparr>now_handshake = 0, now_until = 1500000000, now_checked = 1600000000,
      dial = (\<lambda>_. None), dial_aborted = (\<lambda>_ _. ''operation was canceled''),
      handshake = (\<lambda>_. None),
      verify_failed = (\<lambda>_. ''x509: certificate has expired or is not yet valid''),
      peer_certificates = (\<lambda>_. [\<lparr>NotBefore = - 86400000000000,
                                 NotAfter = 1000000000\<rparr>]),
      task_context = Never\<rparr>"

section \<open>Worker pool\<close>

subsection \<open>State\<close>

text \<open>
  The pool's shared state. A buffered channel is its buffer (a FIFO list bounded by the
  capacity 100) and a closed flag; the context is its done flag; the wait group is its
  counter. The goroutines started by \<open>Start\<close> are kept with the point of \<open>worker\<close> each
  one is at: waiting to receive at \<open>range wp.tasks\<close>, at the \<open>select\<close> with the result it
  wants to publish, or returned. The calls of \<open>Stop\<close> that have closed the task channel
  are kept with the statement each one is to execute next.
\<close>

datatype wstate =
    Receiving
  | Publishing Result
  | Exited

datatype stop_pc =
    AtWait
  | AtCloseResults
  | AtCancel
  | Returned

record WorkerPool =
  tasks :: "Task list"
  tasks_closed :: bool
  results :: "Result list"
  results_closed :: bool
  workers :: int
  wg :: int
  ctx_done :: bool
  goroutines :: "wstate list"
  stops :: "stop_pc list"

definition chan_cap :: nat where
  "chan_cap = 100"

definition NewWorkerPool :: "int \<Rightarrow> WorkerPool" where
  "NewWorkerPool n =
     \<lparr>tasks = [], tasks_closed = False, results = [], results_closed = False,
      workers = n, wg = 0, ctx_done = False, goroutines = [], stops = []\<rparr>"

subsection \<open>processTask\<close>

text \<open>
  The context handed to the prober is derived from the pool's with a timeout of ten
  seconds. If the pool's context is done it is cancelled from the start; otherwise
  whether and when it ends during the call (its deadline passes, or the pool's context is
  cancelled) is a matter of timing, which the environment gives.
\<close>

definition WithTimeout :: "net_env \<Rightarrow> bool \<Rightarrow> Context" where
  "WithTimeout env parent_done =
     (if parent_done then Fires BeforeCall Canceled else task_context env)"

definition processTask :: "net_env \<Rightarrow> bool \<Rightarrow> Task \<Rightarrow> Result" where
  "processTask env parent_done task =
     (case NewHostname (task_Domain task) of
        (hostname, Some err) \<Rightarrow>
          \<lparr>res_Task = task, res_Certificate = None, res_Error = Some err,
           res_CheckedAt = now_checked env\<rparr>
      | (hostname, None) \<Rightarrow>
          (case CheckSSLCertificate env (WithTimeout env parent_done) hostname of
             (trace, certificate, err) \<Rightarrow>
               \<lparr>res_Task = task, res_Certificate = certificate, res_Error = err,
                res_CheckedAt = now_checked env\<rparr>))"

subsection \<open>Channel operations\<close>

text \<open>
  What one attempt at an operation does: it cannot proceed now (\<open>Blocked\<close>), it panics, or
  it completes and gives the next state. Sending on a closed channel panics; sending on an
  open one appends to the buffer if there is room.
\<close>

datatype 'a outcome = Blocked | Panic | Next 'a

definition chan_send :: "'a list \<Rightarrow> bool \<Rightarrow> 'a \<Rightarrow> 'a list outcome" where
  "chan_send buf is_closed x =
     (if is_closed then Panic
      else if length buf < chan_cap then Next (buf @ [x])
      else Blocked)"

subsection \<open>Start, AddTask and Stop\<close>

text \<open>
  \<open>Start\<close>: the loop \<open>for i := 0; i < wp.workers; i++\<close> runs \<open>nat (workers wp)\<close> times
  (not at all for a negative count); each round adds one to the wait group and starts a
  worker, which begins at its \<open>range wp.tasks\<close>.
\<close>

definition WorkerPool_Start :: "WorkerPool \<Rightarrow> WorkerPool" where
  "WorkerPool_Start wp =
     wp\<lparr>wg := wg wp + int (nat (workers wp)),
        goroutines := goroutines wp @ replicate (nat (workers wp)) Receiving\<rparr>"

text \<open>
  \<open>AddTask\<close> is one \<open>select\<close> with two cases. \<open>AddTask_send\<close> is the case
  \<open>wp.tasks <- task\<close> and \<open>AddTask_done\<close> the case \<open><-wp.ctx.Done()\<close>, which leaves the
  pool as it is: the task is dropped. \<open>select\<close> takes one of the cases that can proceed,
  chosen at random, and a send on a closed channel proceeds (by panicking). \<open>AddTask\<close> is
  the list of what the cases that can proceed do; the call blocks while the list is empty.
\<close>

definition AddTask_send :: "WorkerPool \<Rightarrow> Task \<Rightarrow> WorkerPool outcome" where
  "AddTask_send wp task =
     (case chan_send (tasks wp) (tasks_closed wp) task of
        Next buf \<Rightarrow> Next (wp\<lparr>tasks := buf\<rparr>)
      | Panic \<Rightarrow> Panic
      | Blocked \<Rightarrow> Blocked)"

definition AddTask_done :: "WorkerPool \<Rightarrow> Task \<Rightarrow> WorkerPool outcome" where
  "AddTask_done wp task = (if ctx_done wp then Next wp else Blocked)"

definition AddTask :: "WorkerPool \<Rightarrow> Task \<Rightarrow> WorkerPool outcome list" where
  "AddTask wp task = filter (\<lambda>r. r \<noteq> Blocked) [AddTask_send wp task, AddTask_done wp task]"

text \<open>
  \<open>Stop\<close> is four statements. \<open>Stop_begin\<close> is the first, \<open>close(wp.tasks)\<close>, which
  panics on a closed channel; the call then stands at \<open>wp.wg.Wait()\<close>. \<open>Stop_step k\<close>
  lets the call number \<open>k\<close> execute its next statement: \<open>Wait\<close> returns only when the
  counter is zero, \<open>close(wp.results)\<close> panics on a closed channel, \<open>wp.cancel()\<close> sets
  the context done, and then the call has returned.
\<close>

definition Stop_begin :: "WorkerPool \<Rightarrow> WorkerPool outcome" where
  "Stop_begin wp =
     (if tasks_closed wp then Panic
      else Next (wp\<lparr>tasks_closed := True, stops := stops wp @ [AtWait]\<rparr>))"

definition Stop_step :: "WorkerPool \<Rightarrow> nat \<Rightarrow> WorkerPool outcome" where
  "Stop_step wp k =
     (if k < length (stops wp) then
        (case stops wp ! k of
           AtWait \<Rightarrow>
             if wg wp = 0 then Next (wp\<lparr>stops := (stops wp)[k := AtCloseResults]\<rparr>)
             else Blocked
         | AtCloseResults \<Rightarrow>
             if results_closed wp then Panic
             else Next (wp\<lparr>results_closed := True, stops := (stops wp)[k := AtCancel]\<rparr>)
         | AtCancel \<Rightarrow> Next (wp\<lparr>ctx_done := True, stops := (stops wp)[k := Returned]\<rparr>)
         | Returned \<Rightarrow> Blocked)
      else Blocked)"

subsection \<open>The worker\<close>

text \<open>
  The worker number \<open>i\<close>. \<open>worker_receive\<close>: at \<open>range wp.tasks\<close> it takes the first
  buffered task and processes it, or, if the channel is closed and empty, leaves the loop
  and returns (the deferred \<open>wg.Done()\<close>); it blocks on an open empty channel.
  \<open>worker_send\<close> and \<open>worker_done\<close> are the two cases of its \<open>select\<close>: publish the
  result and go back to the loop, or see the context done and return.
\<close>

definition worker_receive :: "net_env \<Rightarrow> WorkerPool \<Rightarrow> nat \<Rightarrow> WorkerPool outcome" where
  "worker_receive env wp i =
     (if i < length (goroutines wp) \<and> goroutines wp ! i = Receiving then
        (case tasks wp of
           task # rest \<Rightarrow>
             Next (wp\<lparr>tasks := rest,
                      goroutines := (goroutines wp)
                        [i := Publishing (processTask env (ctx_done wp) task)]\<rparr>)
         | [] \<Rightarrow>
             if tasks_closed wp
             then Next (wp\<lparr>wg := wg wp - 1, goroutines := (goroutines wp)[i := Exited]\<rparr>)
             else Blocked)
      else Blocked)"

definition worker_send :: "WorkerPool \<Rightarrow> nat \<Rightarrow> WorkerPool outcome" where
  "worker_send wp i =
     (if i < length (goroutines wp) then
        (case goroutines wp ! i of
           Publishing result \<Rightarrow>
             (case chan_send (results wp) (results_closed wp) result of
                Next buf \<Rightarrow>
                  Next (wp\<lparr>results := buf, goroutines := (goroutines wp)[i := Receiving]\<rparr>)
              | Panic \<Rightarrow> Panic
              | Blocked \<Rightarrow> Blocked)
         | _ \<Rightarrow> Blocked)
      else Blocked)"

definition worker_done :: "WorkerPool \<Rightarrow> nat \<Rightarrow> WorkerPool outcome" where
  "worker_done wp i =
     (if i < length (goroutines wp) then
        (case goroutines wp ! i of
           Publishing result \<Rightarrow>
             if ctx_done wp
             then Next (wp\<lparr>wg := wg wp - 1, goroutines := (goroutines wp)[i := Exited]\<rparr>)
             else Blocked
         | _ \<Rightarrow> Blocked)
      else Blocked)"

subsection \<open>Runs of the pool\<close>

text \<open>
  One atomic step of one goroutine. The first five events are steps of the pool's callers
  and of whoever reads \<open>GetResults()\<close>; the last four are steps of \<open>Stop\<close> past its first
  statement and of the workers. A run is a sequence of events, each of which must be able
  to proceed in the state the previous ones have left.
\<close>

datatype event =
    CallStart
  | CallAddTaskSend Task
  | CallAddTaskDone Task
  | CallStop
  | ReceiveResult
  | StopStep nat
  | WorkerReceive nat
  | WorkerSend nat
  | WorkerDone nat

fun step :: "net_env \<Rightarrow> WorkerPool \<Rightarrow> event \<Rightarrow> WorkerPool outcome" where
  "step env wp CallStart = Next (WorkerPool_Start wp)"
| "step env wp (CallAddTaskSend task) = AddTask_send wp task"
| "step env wp (CallAddTaskDone task) = AddTask_done wp task"
| "step env wp CallStop = Stop_begin wp"
| "step env wp ReceiveResult =
     (case results wp of
        r # rest \<Rightarrow> Next (wp\<lparr>results := rest\<rparr>)
      | [] \<Rightarrow> if results_closed wp then Next wp else Blocked)"
| "step env wp (StopStep k) = Stop_step wp k"
| "step env wp (WorkerReceive i) = worker_receive env wp i"
| "step env wp (WorkerSend i) = worker_send wp i"
| "step env wp (WorkerDone i) = worker_done wp i"

fun exec :: "net_env \<Rightarrow> event list \<Rightarrow> WorkerPool \<Rightarrow> WorkerPool outcome" where
  "exec env [] wp = Next wp"
| "exec env (e # es) wp =
     (case step env wp e of
        Next wp' \<Rightarrow> exec env es wp'
      | Panic \<Rightarrow> Panic
      | Blocked \<Rightarrow> Blocked)"

text \<open>
  The events by which the pool moves on its own, without its callers and without a reader
  of the results.
\<close>

fun internal :: "event \<Rightarrow> bool" where
  "internal (StopStep k) = True"
| "internal (WorkerReceive i) = True"
| "internal (WorkerSend i) = True"
| "internal (WorkerDone i) = True"
| "internal _ = False"

text \<open>
  A schedule for one worker: the caller starts the pool and submits 101 tasks with an
  empty domain name without ever reading a result; the worker takes each task as it
  arrives and publishes the result, except that its 101st result finds the buffer of the
  result channel full. Then the caller calls \<open>Stop\<close>.
\<close>

definition empty_task :: Task where
  "empty_task = \<lparr>task_Domain = [], task_DomainID = 1, task_UserID = 1\<rparr>"

definition round_events :: "event list" where
  "round_events = [CallAddTaskSend empty_task, WorkerReceive 0, WorkerSend 0]"

definition unread_schedule :: "event list" where
  "unread_schedule =
     CallStart # concat (replicate 100 round_events)
       @ [CallAddTaskSend empty_task, WorkerReceive 0, CallStop]"

section \<open>Certificate service (ssl\_service.go)\<close>

text \<open>
  The service owns the pool, the handler reference and the started flag. The mutex makes
  \<open>Start\<close> and \<open>SetResultHandler\<close> atomic, so each is one function on the state.
  \<open>drain_loops\<close> counts the \<open>processResults\<close> goroutines that \<open>Start\<close> has spawned.
\<close>

record 'h CertService =
  pool :: WorkerPool
  cs_results :: "'h option"
  started :: bool
  drain_loops :: nat

definition NewCertService :: "'h CertService" where
  "NewCertService =
     \<lparr>pool = NewWorkerPool 20, cs_results = None, started = False, drain_loops = 0\<rparr>"

definition CertService_Start :: "'h CertService \<Rightarrow> 'h CertService" where
  "CertService_Start cs =
     (if started cs then cs
      else cs\<lparr>pool := WorkerPool_Start (pool cs),
              drain_loops := Suc (drain_loops cs),
              started := True\<rparr>)"

definition SetResultHandler :: "'h CertService \<Rightarrow> 'h option \<Rightarrow> 'h CertService" where
  "SetResultHandler cs handler = cs\<lparr>cs_results := handler\<rparr>"

section \<open>Repository (the domains table)\<close>

text \<open>
  A row of the \<open>domains\<close> table without its primary key; the table maps the key \<open>id\<close> to
  the row. The three nullable columns are options.
\<close>

record domain_row =
  user_id :: nat
  domain_name :: string
  created_at :: int
  expiry_date :: "int option"
  last_checked :: "int option"
  last_error :: "string option"
  is_active :: bool

type_synonym domains = "nat \<rightharpoonup> domain_row"

text \<open>
  What the SQL driver may report: \<open>db.Exec\<close> can fail (then nothing was written), and
  \<open>RowsAffected\<close> can fail after the statement ran.
\<close>

datatype sql_fault = NoFault | ExecFault string | RowsAffectedFault string

datatype repo_error = SqlError string | DomainNotFound nat

text \<open>
  \<open>UpdateSSLInfo\<close>: one \<open>UPDATE domains SET expiry_date = ?, last_checked = ?,
  last_error = ? WHERE id = ?\<close>. A nil \<open>expiryDate\<close> or \<open>lastError\<close> is written as NULL.
\<close>

definition UpdateSSLInfo ::
  "sql_fault \<Rightarrow> int \<Rightarrow> domains \<Rightarrow> nat \<Rightarrow> int option \<Rightarrow> string option
     \<Rightarrow> domains \<times> repo_error option" where
  "UpdateSSLInfo fault now db domainID expiryDate lastError =
     (case fault of
        ExecFault e \<Rightarrow> (db, Some (SqlError e))
      | _ \<Rightarrow>
        (let db' = (case db domainID of
                      None \<Rightarrow> db
                    | Some row \<Rightarrow>
                        db(domainID \<mapsto> row\<lparr>expiry_date := expiryDate,
                                            last_checked := Some now,
                                            last_error := lastError\<rparr>))
         in case fault of
              RowsAffectedFault e \<Rightarrow> (db', Some (SqlError e))
            | _ \<Rightarrow> (if db domainID = None then (db', Some (DomainNotFound domainID))
                    else (db', None))))"

text \<open>
  The conversion \<open>types.DomainID(result.Task.DomainID)\<close> from \<open>int\<close> to \<open>uint\<close> (64 bits).
\<close>

definition DomainID_of_int :: "int \<Rightarrow> nat" where
  "DomainID_of_int i = nat (i mod 2 ^ 64)"

text \<open>
  The result handler that \<open>CheckAllDomainsSSLSync\<close> registers (domain\_service.go, lines
  118 to 127). It discards what \<open>UpdateSSLInfo\<close> returns. \<open>None\<close> is the nil dereference
  of \<open>result.Certificate\<close> when both the error and the certificate are nil.
\<close>

definition result_handler :: "sql_fault \<Rightarrow> int \<Rightarrow> domains \<Rightarrow> Result \<Rightarrow> domains option" where
  "result_handler fault now db result =
     (case res_Error result of
        Some err \<Rightarrow>
          Some (fst (UpdateSSLInfo fault now db (DomainID_of_int (task_DomainID (res_Task result)))
                       None (Some (Error_string err))))
      | None \<Rightarrow>
          (case res_Certificate result of
             None \<Rightarrow> None
           | Some cert \<Rightarrow>
               Some (fst (UpdateSSLInfo fault now db
                            (DomainID_of_int (task_DomainID (res_Task result)))
                            (Some (ExpiryDate cert)) None))))"

section \<open>Reference definitions\<close>

subsection \<open>The language of a regular expression\<close>

text \<open>
  The set of strings an expression denotes, against which the matcher is proved correct.
\<close>

definition conc :: "string set \<Rightarrow> string set \<Rightarrow> string set" where
  "conc A B = {u @ v |u v. u \<in> A \<and> v \<in> B}"

inductive_set star :: "string set \<Rightarrow> string set" for A :: "string set" where
  star_Nil: "[] \<in> star A"
| star_app: "u \<in> A \<Longrightarrow> v \<in> star A \<Longrightarrow> u @ v \<in> star A"

primrec upto :: "string set \<Rightarrow> nat \<Rightarrow> string set" where
  "upto A 0 = {[]}"
| "upto A (Suc n) = insert [] (conc A (upto A n))"

fun lang :: "regex \<Rightarrow> string set" where
  "lang NoMatch = {}"
| "lang EmptyMatch = {[]}"
| "lang (CharClass P) = {[c] |c. P c}"
| "lang (Alternate r s) = lang r \<union> lang s"
| "lang (Concat r s) = conc (lang r) (lang s)"
| "lang (Star r) = star (lang r)"
| "lang (Quest r) = insert [] (lang r)"
| "lang (Repeat0 r n) = upto (lang r) n"

subsection \<open>The hostname grammar\<close>

text \<open>
  A label as the expression for one label describes it: 1 to 63 bytes of
  \<open>[a-zA-Z0-9-]\<close> that begin and end with a letter or digit.
\<close>

definition label_ok :: "string \<Rightarrow> bool" where
  "label_ok l \<longleftrightarrow>
     l \<noteq> [] \<and> length l \<le> 63 \<and> (\<forall>c\<in>set l. alnum_hyphen c) \<and> alnum (hd l) \<and> alnum (last l)"

text \<open>
  The rules as the specification words them. A string is white space only when it is a
  sequence of encoded white-space characters (the empty sequence included). A label is 1
  to 63 characters of \<open>[A-Za-z0-9-]\<close> and neither starts nor ends with \<open>-\<close>; a hostname
  has only such labels between its dots, does not start or end with \<open>.\<close> or \<open>-\<close>, and
  does not contain \<open>..\<close>. \<open>ValidateHostname_simple\<close> is the validator cut down to its
  first three checks.
\<close>

definition whitespace_only :: "string \<Rightarrow> bool" where
  "whitespace_only s \<longleftrightarrow> (\<exists>ws. set ws \<subseteq> set space_encodings \<and> s = concat ws)"

definition spec_label :: "string \<Rightarrow> bool" where
  "spec_label l \<longleftrightarrow>
     1 \<le> length l \<and> length l \<le> 63 \<and> (\<forall>c\<in>set l. alnum_hyphen c) \<and>
     \<not> prefix ''-'' l \<and> \<not> suffix ''-'' l"

definition spec_hostname :: "string \<Rightarrow> bool" where
  "spec_hostname s \<longleftrightarrow>
     (\<forall>l\<in>set (Split s CHR ''.''). spec_label l) \<and>
     \<not> prefix ''.'' s \<and> \<not> suffix ''.'' s \<and> \<not> prefix ''-'' s \<and> \<not> suffix ''-'' s \<and>
     \<not> sublist ''..'' s"

definition ValidateHostname_simple :: "string \<Rightarrow> error option" where
  "ValidateHostname_simple hostname =
     (if TrimSpace hostname = [] then Some EmptyHostnameErr
      else if length hostname > 253 then Some HostnameTooLongErr
      else if \<not> MatchString validHostnameRegex hostname then Some InvalidCharactersErr
      else None)"

subsection \<open>Invariants of runs\<close>

text \<open>
  \<open>stop_closed\<close>: a call of \<open>Stop\<close> is under way or has returned only if the task channel
  is closed. \<open>cancel_closed\<close>: the context is done only if \<open>Stop\<close> has been called.
  \<open>filling k\<close>: the state between two rounds of \<open>unread_schedule\<close>, with \<open>k\<close> results
  buffered. \<open>stuck\<close>: \<open>Stop\<close> stands at \<open>Wait\<close>, the one worker stands at its
  \<open>select\<close>, the buffer of the result channel is full and the context is not done.
  \<open>waiting\<close> is what remains of \<open>stuck\<close> however the callers go on, as long as no
  result is read: the first worker stands at its \<open>select\<close>, the wait group counts the
  workers that have not returned (\<open>alive\<close>), and every call of \<open>Stop\<close> stands at \<open>Wait\<close>.
\<close>

definition stop_closed :: "WorkerPool \<Rightarrow> bool" where
  "stop_closed wp \<longleftrightarrow> stops wp = [] \<or> tasks_closed wp"

definition filling :: "nat \<Rightarrow> WorkerPool \<Rightarrow> bool" where
  "filling k wp \<longleftrightarrow>
     tasks wp = [] \<and> \<not> tasks_closed wp \<and> length (results wp) = k \<and> \<not> results_closed wp \<and>
     wg wp = 1 \<and> \<not> ctx_done wp \<and> goroutines wp = [Receiving] \<and> stops wp = []"

definition stuck :: "WorkerPool \<Rightarrow> bool" where
  "stuck wp \<longleftrightarrow>
     tasks wp = [] \<and> tasks_closed wp \<and> length (results wp) = chan_cap \<and> \<not> results_closed wp \<and>
     wg wp = 1 \<and> \<not> ctx_done wp \<and> (\<exists>r. goroutines wp = [Publishing r]) \<and> stops wp = [AtWait]"

definition alive :: "WorkerPool \<Rightarrow> nat" where
  "alive wp = length (filter (\<lambda>g. g \<noteq> Exited) (goroutines wp))"

definition waiting :: "WorkerPool \<Rightarrow> bool" where
  "waiting wp \<longleftrightarrow>
     tasks_closed wp \<and> length (results wp) = chan_cap \<and> \<not> results_closed wp \<and>
     \<not> ctx_done wp \<and> wg wp = int (alive wp) \<and>
     (\<exists>r rest. goroutines wp = Publishing r # rest) \<and>
     (\<forall>pc\<in>set (stops wp). pc = AtWait)"

definition cancel_closed :: "WorkerPool \<Rightarrow> bool" where
  "cancel_closed wp \<longleftrightarrow> (ctx_done wp \<longrightarrow> stops wp \<noteq> [])"

section \<open>The matcher decides the language\<close>

lemma in_conc: "w \<in> conc A B \<longleftrightarrow> (\<exists>u v. w = u @ v \<and> u \<in> A \<and> v \<in> B)"
  by (auto simp: conc_def)

lemma Nil_in_conc: "[] \<in> conc A B \<longleftrightarrow> [] \<in> A \<and> [] \<in> B"
  by (auto simp: conc_def)

lemma nullable_lang: "nullable r \<longleftrightarrow> [] \<in> lang r"
proof (induction r)
  case (Repeat0 r n)
  then show ?case by (cases n) simp_all
qed (auto simp: Nil_in_conc intro: star.star_Nil)

lemma Cons_in_conc:
  "c # w \<in> conc A B \<longleftrightarrow>
     (\<exists>u v. w = u @ v \<and> c # u \<in> A \<and> v \<in> B) \<or> ([] \<in> A \<and> c # w \<in> B)"
proof
  assume "c # w \<in> conc A B"
  then obtain x y where xy: "c # w = x @ y" "x \<in> A" "y \<in> B"
    by (auto simp: conc_def)
  show "(\<exists>u v. w = u @ v \<and> c # u \<in> A \<and> v \<in> B) \<or> ([] \<in> A \<and> c # w \<in> B)"
  proof (cases x)
    case Nil
    with xy show ?thesis by simp
  next
    case (Cons a x')
    with xy have "w = x' @ y" "c # x' \<in> A" by simp_all
    with xy show ?thesis by blast
  qed
next
  assume "(\<exists>u v. w = u @ v \<and> c # u \<in> A \<and> v \<in> B) \<or> ([] \<in> A \<and> c # w \<in> B)"
  then show "c # w \<in> conc A B"
  proof
    assume "\<exists>u v. w = u @ v \<and> c # u \<in> A \<and> v \<in> B"
    then obtain u v where "w = u @ v" "c # u \<in> A" "v \<in> B" by blast
    then have "(c # u) @ v \<in> conc A B" unfolding conc_def by blast
    with \<open>w = u @ v\<close> show ?thesis by simp
  next
    assume "[] \<in> A \<and> c # w \<in> B"
    then have "[] @ (c # w) \<in> conc A B" unfolding conc_def by blast
    then show ?thesis by simp
  qed
qed

lemma star_Cons_split:
  assumes "x \<in> star A" and "x = c # w"
  shows "\<exists>u v. w = u @ v \<and> c # u \<in> A \<and> v \<in> star A"
  using assms
proof (induction rule: star.induct)
  case star_Nil
  then show ?case by simp
next
  case (star_app u v)
  show ?case
  proof (cases u)
    case Nil
    with star_app show ?thesis by simp
  next
    case (Cons a u')
    with star_app.prems have "a = c" "w = u' @ v" by simp_all
    with Cons star_app.hyps show ?thesis by blast
  qed
qed

lemma Cons_in_star:
  "c # w \<in> star A \<longleftrightarrow> (\<exists>u v. w = u @ v \<and> c # u \<in> A \<and> v \<in> star A)"
proof
  assume "c # w \<in> star A"
  then show "\<exists>u v. w = u @ v \<and> c # u \<in> A \<and> v \<in> star A"
    by (rule star_Cons_split) simp
next
  assume "\<exists>u v. w = u @ v \<and> c # u \<in> A \<and> v \<in> star A"
  then obtain u v where "w = u @ v" "c # u \<in> A" "v \<in> star A" by blast
  then have "(c # u) @ v \<in> star A" by (intro star.star_app)
  with \<open>w = u @ v\<close> show "c # w \<in> star A" by simp
qed

lemma conc_mono: "B \<subseteq> B' \<Longrightarrow> conc A B \<subseteq> conc A B'"
  by (auto simp: conc_def)

lemma upto_Suc_subset: "upto A n \<subseteq> upto A (Suc n)"
proof (induction n)
  case 0
  show ?case by simp
next
  case (Suc n)
  have "conc A (upto A n) \<subseteq> conc A (upto A (Suc n))"
    by (rule conc_mono) (rule Suc.IH)
  then show ?case by auto
qed

lemma Cons_in_upto:
  "c # w \<in> upto A (Suc n) \<longleftrightarrow> (\<exists>u v. w = u @ v \<and> c # u \<in> A \<and> v \<in> upto A n)"
proof (induction n)
  case 0
  show ?case by (auto simp: Cons_in_conc)
next
  case (Suc n)
  show ?case
  proof
    assume "c # w \<in> upto A (Suc (Suc n))"
    then have "c # w \<in> conc A (upto A (Suc n))" by simp
    then consider
      (split) "\<exists>u v. w = u @ v \<and> c # u \<in> A \<and> v \<in> upto A (Suc n)"
      | (skip) "c # w \<in> upto A (Suc n)"
      unfolding Cons_in_conc [of c w A "upto A (Suc n)"] by blast
    then show "\<exists>u v. w = u @ v \<and> c # u \<in> A \<and> v \<in> upto A (Suc n)"
    proof cases
      case split
      then show ?thesis .
    next
      case skip
      then obtain u v where "w = u @ v" "c # u \<in> A" "v \<in> upto A n"
        using Suc.IH by blast
      moreover have "v \<in> upto A (Suc n)"
        using \<open>v \<in> upto A n\<close> upto_Suc_subset [of A n] by blast
      ultimately show ?thesis by blast
    qed
  next
    assume "\<exists>u v. w = u @ v \<and> c # u \<in> A \<and> v \<in> upto A (Suc n)"
    then have "c # w \<in> conc A (upto A (Suc n))"
      unfolding Cons_in_conc [of c w A "upto A (Suc n)"] by blast
    then show "c # w \<in> upto A (Suc (Suc n))" by simp
  qed
qed

lemma lang_deriv: "w \<in> lang (deriv c r) \<longleftrightarrow> c # w \<in> lang r"
proof (induction r arbitrary: w)
  case (Concat r s)
  have "w \<in> conc (lang (deriv c r)) (lang s)
          \<longleftrightarrow> (\<exists>u v. w = u @ v \<and> c # u \<in> lang r \<and> v \<in> lang s)"
    by (simp add: in_conc Concat.IH)
  then show ?case
    by (auto simp: Cons_in_conc [of c w "lang r" "lang s"] nullable_lang Concat.IH)
next
  case (Star r)
  have "w \<in> conc (lang (deriv c r)) (star (lang r))
          \<longleftrightarrow> (\<exists>u v. w = u @ v \<and> c # u \<in> lang r \<and> v \<in> star (lang r))"
    by (simp add: in_conc Star.IH)
  then show ?case
    by (simp add: Cons_in_star [of c w "lang r"])
next
  case (Repeat0 r n)
  show ?case
  proof (cases n)
    case 0
    then show ?thesis by simp
  next
    case (Suc m)
    have "w \<in> conc (lang (deriv c r)) (upto (lang r) m)
            \<longleftrightarrow> (\<exists>u v. w = u @ v \<and> c # u \<in> lang r \<and> v \<in> upto (lang r) m)"
      by (simp add: in_conc Repeat0.IH)
    then show ?thesis
      using Suc by (simp add: Cons_in_upto [of c w "lang r" m] del: upto.simps)
  qed
qed auto

lemma MatchString_lang: "MatchString re s \<longleftrightarrow> s \<in> lang re"
  unfolding MatchString_def
  by (induction s arbitrary: re) (simp_all add: nullable_lang lang_deriv)

section \<open>The language of the hostname expression\<close>

lemma alnum_imp_hyphen: "alnum c \<Longrightarrow> alnum_hyphen c"
  by (auto simp: alnum_def alnum_hyphen_def)

lemma alnum_hyphen_iff: "alnum_hyphen c \<longleftrightarrow> alnum c \<or> c = CHR ''-''"
  by (auto simp: alnum_def alnum_hyphen_def)

lemma not_alnum_hyphen_char: "\<not> alnum CHR ''-''"
  by (simp add: alnum_def in_range_def)

lemma not_alnum_hyphen_dot: "\<not> alnum_hyphen CHR ''.''"
  by (simp add: alnum_hyphen_def in_range_def)

lemma upto_CharClass:
  "upto {[c] |c. P c} n = {w. length w \<le> n \<and> (\<forall>c\<in>set w. P c)}"
proof (induction n)
  case 0
  show ?case by auto
next
  case (Suc n)
  show ?case
  proof (rule set_eqI)
    fix w
    show "w \<in> upto {[c] |c. P c} (Suc n) \<longleftrightarrow> w \<in> {w. length w \<le> Suc n \<and> (\<forall>c\<in>set w. P c)}"
    proof (cases w)
      case Nil
      then show ?thesis by simp
    next
      case (Cons a v)
      have "a # v \<in> conc {[c] |c. P c} (upto {[c] |c. P c} n)
              \<longleftrightarrow> P a \<and> v \<in> upto {[c] |c. P c} n"
        by (auto simp: Cons_in_conc)
      then show ?thesis
        using Cons Suc.IH by auto
    qed
  qed
qed

lemma Cons_in_conc_class: "a # t \<in> conc {[c] |c. P c} X \<longleftrightarrow> P a \<and> t \<in> X"
  by (auto simp: Cons_in_conc)

lemma lang_label_regex: "l \<in> lang label_regex \<longleftrightarrow> label_ok l"
proof
  assume "l \<in> lang label_regex"
  then obtain a t where l: "l = a # t" and a: "alnum a"
    and t: "t = [] \<or> (\<exists>m b. t = m @ [b] \<and> length m \<le> 61 \<and> (\<forall>c\<in>set m. alnum_hyphen c) \<and> alnum b)"
    by (auto simp: label_regex_def in_conc upto_CharClass)
  from t show "label_ok l"
  proof
    assume "t = []"
    with l a show ?thesis by (simp add: label_ok_def alnum_imp_hyphen)
  next
    assume "\<exists>m b. t = m @ [b] \<and> length m \<le> 61 \<and> (\<forall>c\<in>set m. alnum_hyphen c) \<and> alnum b"
    then obtain m b where "t = m @ [b]" "length m \<le> 61" "\<forall>c\<in>set m. alnum_hyphen c" "alnum b"
      by blast
    with l a show ?thesis by (auto simp: label_ok_def alnum_imp_hyphen)
  qed
next
  assume ok: "label_ok l"
  then obtain a t where l: "l = a # t" by (cases l) (auto simp: label_ok_def)
  with ok have a: "alnum a" by (simp add: label_ok_def)
  show "l \<in> lang label_regex"
  proof (cases "t = []")
    case True
    with l a show ?thesis by (auto simp: label_regex_def in_conc)
  next
    case False
    then have t: "t = butlast t @ [last t]" by simp
    from ok l False have "alnum (last t)" "length (butlast t) \<le> 61"
      "\<forall>c\<in>set (butlast t). alnum_hyphen c"
      by (auto simp: label_ok_def dest: in_set_butlastD)
    then have "t \<in> conc {w. length w \<le> 61 \<and> (\<forall>c\<in>set w. alnum_hyphen c)} {[c] |c. alnum c}"
      using t unfolding in_conc by blast
    with l a show ?thesis
      by (simp add: label_regex_def Cons_in_conc_class upto_CharClass)
  qed
qed

lemma star_sep_labels:
  "w \<in> star (conc {[d]} B) \<longleftrightarrow> (\<exists>ls. w = concat (map ((#) d) ls) \<and> set ls \<subseteq> B)"
proof
  assume "w \<in> star (conc {[d]} B)"
  then show "\<exists>ls. w = concat (map ((#) d) ls) \<and> set ls \<subseteq> B"
  proof (induction rule: star.induct)
    case star_Nil
    have "[] = concat (map ((#) d) []) \<and> set [] \<subseteq> B" by simp
    then show ?case by blast
  next
    case (star_app u v)
    then obtain b ls where "u = d # b" "b \<in> B" "v = concat (map ((#) d) ls)" "set ls \<subseteq> B"
      by (auto simp: in_conc)
    then have "u @ v = concat (map ((#) d) (b # ls)) \<and> set (b # ls) \<subseteq> B" by simp
    then show ?case by blast
  qed
next
  assume "\<exists>ls. w = concat (map ((#) d) ls) \<and> set ls \<subseteq> B"
  then obtain ls where "w = concat (map ((#) d) ls)" "set ls \<subseteq> B" by blast
  then show "w \<in> star (conc {[d]} B)"
  proof (induction ls arbitrary: w)
    case Nil
    then show ?case by (simp add: star.star_Nil)
  next
    case (Cons b ls)
    have "d # b \<in> conc {[d]} B" using Cons.prems by (auto simp: in_conc)
    moreover have "concat (map ((#) d) ls) \<in> star (conc {[d]} B)"
      using Cons by simp
    ultimately have "(d # b) @ concat (map ((#) d) ls) \<in> star (conc {[d]} B)"
      by (rule star.star_app)
    with Cons.prems show ?case by simp
  qed
qed

subsection \<open>Splitting and joining\<close>

lemma Split_not_Nil: "Split s d \<noteq> []"
  by (induction s) (auto split: list.splits)

lemma Split_sep: "Split (d # cs) d = [] # Split cs d"
  using Split_not_Nil [of cs d] by (auto split: list.splits)

lemma Split_other: "c \<noteq> d \<Longrightarrow> Split (c # cs) d = (c # hd (Split cs d)) # tl (Split cs d)"
  using Split_not_Nil [of cs d] by (auto split: list.splits)

lemma Split_label_append:
  "d \<notin> set l \<Longrightarrow> Split (l @ rest) d = (l @ hd (Split rest d)) # tl (Split rest d)"
proof (induction l)
  case Nil
  then show ?case using Split_not_Nil [of rest d] by simp
next
  case (Cons c l)
  then have "c \<noteq> d" "d \<notin> set l" by auto
  then show ?case using Cons.IH by (simp add: Split_other del: Split.simps(2))
qed

lemma Split_seps:
  "\<forall>l\<in>set ls. d \<notin> set l \<Longrightarrow> Split (concat (map ((#) d) ls)) d = [] # ls"
proof (induction ls)
  case Nil
  show ?case by simp
next
  case (Cons l ls)
  then have "Split (concat (map ((#) d) ls)) d = [] # ls" and "d \<notin> set l" by simp_all
  then have "Split (l @ concat (map ((#) d) ls)) d = l # ls"
    by (simp add: Split_label_append del: Split.simps(2))
  then show ?case
    using Split_sep [of d "l @ concat (map ((#) d) ls)"] by simp
qed

lemma Split_join:
  assumes "d \<notin> set l0" and "\<forall>l\<in>set ls. d \<notin> set l"
  shows "Split (l0 @ concat (map ((#) d) ls)) d = l0 # ls"
  using assms by (simp add: Split_label_append Split_seps del: Split.simps(2))

lemma Split_unjoin:
  "s = hd (Split s d) @ concat (map ((#) d) (tl (Split s d)))"
proof (induction s)
  case Nil
  show ?case by simp
next
  case (Cons c s)
  show ?case
  proof (cases "c = d")
    case True
    have "Split s d = hd (Split s d) # tl (Split s d)"
      using Split_not_Nil [of s d] by simp
    then have "concat (map ((#) d) (Split s d)) = d # hd (Split s d) @ concat (map ((#) d) (tl (Split s d)))"
      by (metis concat.simps(2) list.simps(9) append_Cons)
    with True Cons.IH show ?thesis
      by (simp add: Split_sep del: Split.simps(2))
  next
    case False
    with Cons.IH show ?thesis
      by (simp add: Split_other del: Split.simps(2))
  qed
qed

lemma Split_sep_free: "l \<in> set (Split s d) \<Longrightarrow> d \<notin> set l"
proof (induction s arbitrary: l)
  case Nil
  then show ?case by simp
next
  case (Cons c s)
  have ne: "Split s d = hd (Split s d) # tl (Split s d)"
    using Split_not_Nil [of s d] by simp
  show ?case
  proof (cases "c = d")
    case True
    with Cons show ?thesis by (auto simp: Split_sep simp del: Split.simps(2))
  next
    case False
    with Cons.prems have "l = c # hd (Split s d) \<or> l \<in> set (tl (Split s d))"
      by (simp add: Split_other del: Split.simps(2))
    then show ?thesis
    proof
      assume "l = c # hd (Split s d)"
      moreover have "d \<notin> set (hd (Split s d))"
        using Cons.IH [of "hd (Split s d)"] ne by (metis list.set_intros(1))
      ultimately show ?thesis using False by simp
    next
      assume "l \<in> set (tl (Split s d))"
      then have "l \<in> set (Split s d)" using ne by (metis list.set_intros(2))
      then show ?thesis by (rule Cons.IH)
    qed
  qed
qed

lemma label_ok_dot_free: "label_ok l \<Longrightarrow> CHR ''.'' \<notin> set l"
  using not_alnum_hyphen_dot by (auto simp: label_ok_def)

lemma MatchString_validHostnameRegex:
  "MatchString validHostnameRegex s \<longleftrightarrow> (\<forall>l\<in>set (Split s CHR ''.''). label_ok l)"
proof -
  have lang: "s \<in> lang validHostnameRegex \<longleftrightarrow>
      (\<exists>l0 ls. s = l0 @ concat (map ((#) CHR ''.'') ls) \<and> label_ok l0 \<and> (\<forall>l\<in>set ls. label_ok l))"
  proof -
    have eq: "{[c] |c. c = CHR ''.''} = {[CHR ''.'']}" by auto
    have "lang label_regex = {l. label_ok l}"
      using lang_label_regex by blast
    then have "lang validHostnameRegex
            = conc {l. label_ok l} (star (conc {[CHR ''.'']} {l. label_ok l}))"
      by (simp add: validHostnameRegex_def eq)
    then have "s \<in> lang validHostnameRegex \<longleftrightarrow>
        (\<exists>u v. s = u @ v \<and> label_ok u \<and>
           (\<exists>ls. v = concat (map ((#) CHR ''.'') ls) \<and> set ls \<subseteq> {l. label_ok l}))"
      by (simp add: in_conc star_sep_labels)
    also have "\<dots> \<longleftrightarrow>
        (\<exists>l0 ls. s = l0 @ concat (map ((#) CHR ''.'') ls) \<and> label_ok l0 \<and> (\<forall>l\<in>set ls. label_ok l))"
      by (simp add: subset_iff) blast
    finally show ?thesis .
  qed
  show ?thesis
  proof
    assume "MatchString validHostnameRegex s"
    then obtain l0 ls where s: "s = l0 @ concat (map ((#) CHR ''.'') ls)"
      and ok: "label_ok l0" "\<forall>l\<in>set ls. label_ok l"
      using lang by (auto simp: MatchString_lang)
    then have "Split s CHR ''.'' = l0 # ls"
      using Split_join [of "CHR ''.''" l0 ls] label_ok_dot_free by blast
    with ok show "\<forall>l\<in>set (Split s CHR ''.''). label_ok l" by simp
  next
    assume all: "\<forall>l\<in>set (Split s CHR ''.''). label_ok l"
    have ne: "Split s CHR ''.'' = hd (Split s CHR ''.'') # tl (Split s CHR ''.'')"
      using Split_not_Nil [of s "CHR ''.''"] by simp
    have "label_ok (hd (Split s CHR ''.''))"
      using all ne by (metis list.set_intros(1))
    moreover have "\<forall>l\<in>set (tl (Split s CHR ''.'')). label_ok l"
      using all ne by (metis list.set_intros(2))
    ultimately show "MatchString validHostnameRegex s"
      using Split_unjoin [of s "CHR ''.''"] lang unfolding MatchString_lang by blast
  qed
qed

subsection \<open>The checks after the match\<close>

lemma Split_append_sep: "Split (xs @ d # ys) d = Split xs d @ Split ys d"
proof (induction xs)
  case Nil
  show ?case by (simp add: Split_sep del: Split.simps(2))
next
  case (Cons c xs)
  show ?case
  proof (cases "c = d")
    case True
    with Cons.IH show ?thesis by (simp add: Split_sep del: Split.simps(2))
  next
    case False
    have "Split xs d \<noteq> []" by (rule Split_not_Nil)
    with False Cons.IH show ?thesis by (simp add: Split_other del: Split.simps(2))
  qed
qed

lemma sublist_seps_empty_label: "sublist [d, d] s \<Longrightarrow> [] \<in> set (Split s d)"
proof -
  assume "sublist [d, d] s"
  then obtain ps ss where "s = ps @ d # d # ss" by (auto simp: sublist_def)
  then have "Split s d = Split ps d @ [] # Split ss d"
    by (simp add: Split_append_sep Split_sep del: Split.simps(2))
  then show ?thesis by simp
qed

lemma prefix_sep_empty_label: "prefix [d] s \<Longrightarrow> [] \<in> set (Split s d)"
  by (auto simp: prefix_def Split_sep simp del: Split.simps(2))

lemma suffix_sep_empty_label: "suffix [d] s \<Longrightarrow> [] \<in> set (Split s d)"
proof -
  assume "suffix [d] s"
  then obtain xs where "s = xs @ [d]" by (auto simp: suffix_def)
  then have "Split s d = Split xs d @ [[]]"
    by (simp add: Split_append_sep del: Split.simps(2))
  then show ?thesis by simp
qed

lemma hd_join: "l0 \<noteq> [] \<Longrightarrow> hd (l0 @ rest) = hd l0"
  by simp

lemma last_join:
  "\<forall>l\<in>set (l0 # ls). l \<noteq> [] \<Longrightarrow>
     last (l0 @ concat (map ((#) d) ls)) = last (last (l0 # ls))"
proof (induction ls arbitrary: l0)
  case Nil
  then show ?case by simp
next
  case (Cons l ls)
  from Cons.prems have "\<forall>x\<in>set (l # ls). x \<noteq> []" by simp
  then have "last (l @ concat (map ((#) d) ls)) = last (last (l # ls))"
    by (rule Cons.IH)
  moreover have "l \<noteq> []" using Cons.prems by simp
  ultimately have "last (l0 @ d # l @ concat (map ((#) d) ls)) = last (last (l # ls))"
    by simp
  then show ?case by simp
qed

lemma labels_ok_hd:
  assumes "\<forall>l\<in>set (Split s d). label_ok l"
  shows "s \<noteq> [] \<and> alnum (hd s) \<and> alnum (last s)"
proof -
  let ?l0 = "hd (Split s d)" and ?ls = "tl (Split s d)"
  have ne: "Split s d = ?l0 # ?ls" using Split_not_Nil [of s d] by simp
  have s: "s = ?l0 @ concat (map ((#) d) ?ls)" by (rule Split_unjoin)
  have ok0: "label_ok ?l0" using assms ne by (metis list.set_intros(1))
  have okl: "label_ok (last (?l0 # ?ls))"
    using assms ne by (metis last_in_set list.discI)
  have nonempty: "\<forall>l\<in>set (?l0 # ?ls). l \<noteq> []"
    using assms ne by (metis label_ok_def)
  have "?l0 \<noteq> []" using ok0 by (simp add: label_ok_def)
  then have "s \<noteq> []" using s by (metis append_is_Nil_conv)
  moreover have "hd s = hd ?l0"
    using s \<open>?l0 \<noteq> []\<close> by (metis hd_append2)
  moreover have "last s = last (last (?l0 # ?ls))"
    using last_join [OF nonempty, of d] s by simp
  ultimately show ?thesis
    using ok0 okl by (simp add: label_ok_def)
qed

lemma label_ok_checks:
  assumes "label_ok l"
  shows "length l \<noteq> 0 \<and> \<not> 63 < length l \<and> \<not> HasPrefix l ''-'' \<and> \<not> HasSuffix l ''-''"
proof -
  from assms have ne: "l \<noteq> []" and len: "length l \<le> 63"
    and h: "alnum (hd l)" and t: "alnum (last l)"
    by (simp_all add: label_ok_def)
  have "\<not> prefix ''-'' l"
    using h ne not_alnum_hyphen_char by (auto simp: prefix_def)
  moreover have "\<not> suffix ''-'' l"
    using t ne not_alnum_hyphen_char by (auto simp: suffix_def)
  ultimately show ?thesis using ne len by (simp add: HasPrefix_def HasSuffix_def)
qed

lemma check_labels_ok: "\<forall>l\<in>set ls. label_ok l \<Longrightarrow> check_labels ls = None"
proof (induction ls)
  case Nil
  show ?case by simp
next
  case (Cons l ls)
  then have "label_ok l" and "check_labels ls = None" by simp_all
  then show ?case using label_ok_checks [of l] by simp
qed

lemma match_passes_later_checks:
  assumes "MatchString validHostnameRegex s"
  shows "\<not> Contains s ''..''"
    and "\<not> HasPrefix s ''.''" and "\<not> HasSuffix s ''.''"
    and "\<not> HasPrefix s ''-''" and "\<not> HasSuffix s ''-''"
    and "check_labels (Split s CHR ''.'') = None"
proof -
  have ok: "\<forall>l\<in>set (Split s CHR ''.''). label_ok l"
    using assms by (simp add: MatchString_validHostnameRegex)
  then have no_empty: "[] \<notin> set (Split s CHR ''.'')"
    by (auto simp: label_ok_def)
  show "\<not> Contains s ''..''"
    using no_empty sublist_seps_empty_label [of "CHR ''.''" s] by (auto simp: Contains_def)
  show "\<not> HasPrefix s ''.''"
    using no_empty prefix_sep_empty_label [of "CHR ''.''" s] by (auto simp: HasPrefix_def)
  show "\<not> HasSuffix s ''.''"
    using no_empty suffix_sep_empty_label [of "CHR ''.''" s] by (auto simp: HasSuffix_def)
  have ends: "s \<noteq> [] \<and> alnum (hd s) \<and> alnum (last s)"
    using ok by (rule labels_ok_hd)
  show "\<not> HasPrefix s ''-''"
    using ends not_alnum_hyphen_char by (auto simp: HasPrefix_def prefix_def)
  show "\<not> HasSuffix s ''-''"
    using ends not_alnum_hyphen_char by (auto simp: HasSuffix_def suffix_def)
  show "check_labels (Split s CHR ''.'') = None"
    using ok by (rule check_labels_ok)
qed

section \<open>White space\<close>

lemma space_encodings_nonempty: "[] \<notin> set space_encodings"
  by (simp add: space_encodings_def)

lemma space_encodings_prefix_free_all:
  "list_all (\<lambda>e. list_all (\<lambda>w. prefix e w \<longrightarrow> e = w) space_encodings) space_encodings"
  by code_simp

lemma space_encodings_prefix_free:
  "e \<in> set space_encodings \<Longrightarrow> w \<in> set space_encodings \<Longrightarrow> prefix e w \<Longrightarrow> e = w"
  using space_encodings_prefix_free_all by (simp add: list_all_iff)

lemma find_space_prefix:
  assumes "w \<in> set space_encodings"
  shows "find (\<lambda>e. prefix e (w @ rest)) space_encodings = Some w"
proof (cases "find (\<lambda>e. prefix e (w @ rest)) space_encodings")
  case None
  then have "\<not> prefix w (w @ rest)" using assms by (auto simp: find_None_iff)
  then show ?thesis by simp
next
  case (Some e)
  then have e: "e \<in> set space_encodings" "prefix e (w @ rest)"
    by (auto simp: find_Some_iff)
  have "prefix w (w @ rest)" by simp
  with e have "prefix e w \<or> prefix w e" by (metis prefix_same_cases)
  then have "e = w"
    using e(1) assms space_encodings_prefix_free by blast
  with Some show ?thesis by simp
qed

lemma TrimLeftSpace_Nil: "TrimLeftSpace [] = []"
proof -
  have "find (\<lambda>e. prefix e []) space_encodings = None"
    using space_encodings_nonempty by (auto simp: find_None_iff)
  then show ?thesis by (simp add: TrimLeftSpace.simps)
qed

lemma TrimRightSpace_Nil: "TrimRightSpace [] = []"
proof -
  have "find (\<lambda>e. suffix e []) space_encodings = None"
    using space_encodings_nonempty by (auto simp: find_None_iff)
  then show ?thesis by (simp add: TrimRightSpace.simps)
qed

lemma TrimLeftSpace_spaces:
  "set ws \<subseteq> set space_encodings \<Longrightarrow> TrimLeftSpace (concat ws @ t) = TrimLeftSpace t"
proof (induction ws)
  case Nil
  show ?case by simp
next
  case (Cons w ws)
  then have w: "w \<in> set space_encodings" and IH: "TrimLeftSpace (concat ws @ t) = TrimLeftSpace t"
    by simp_all
  have "TrimLeftSpace (w @ concat ws @ t) = TrimLeftSpace (drop (length w) (w @ concat ws @ t))"
    using find_space_prefix [OF w, of "concat ws @ t"]
    by (subst TrimLeftSpace.simps) simp
  with IH show ?case by simp
qed

lemma TrimLeftSpace_decomp:
  "\<exists>ws. set ws \<subseteq> set space_encodings \<and> s = concat ws @ TrimLeftSpace s"
proof (induction s rule: TrimLeftSpace.induct)
  case (1 s)
  show ?case
  proof (cases "find (\<lambda>e. prefix e s) space_encodings")
    case None
    then have "TrimLeftSpace s = s" by (simp add: TrimLeftSpace.simps)
    then have "set [] \<subseteq> set space_encodings \<and> s = concat [] @ TrimLeftSpace s" by simp
    then show ?thesis by blast
  next
    case (Some e)
    then have e: "e \<in> set space_encodings" "prefix e s"
      by (auto simp: find_Some_iff)
    from Some have eq: "TrimLeftSpace s = TrimLeftSpace (drop (length e) s)"
      by (simp add: TrimLeftSpace.simps)
    from "1.IH" [OF Some] obtain ws where ws: "set ws \<subseteq> set space_encodings"
      "drop (length e) s = concat ws @ TrimLeftSpace (drop (length e) s)" by blast
    have "s = e @ drop (length e) s" using e(2) by (auto simp: prefix_def)
    then have "s = concat (e # ws) @ TrimLeftSpace s"
      using ws(2) eq by simp
    moreover have "set (e # ws) \<subseteq> set space_encodings" using e(1) ws(1) by simp
    ultimately show ?thesis by blast
  qed
qed

lemma TrimRightSpace_decomp:
  "\<exists>ws. set ws \<subseteq> set space_encodings \<and> s = TrimRightSpace s @ concat ws"
proof (induction s rule: TrimRightSpace.induct)
  case (1 s)
  show ?case
  proof (cases "find (\<lambda>e. suffix e s) space_encodings")
    case None
    then have "TrimRightSpace s = s" by (simp add: TrimRightSpace.simps)
    then have "set [] \<subseteq> set space_encodings \<and> s = TrimRightSpace s @ concat []" by simp
    then show ?thesis by blast
  next
    case (Some e)
    then have e: "e \<in> set space_encodings" "suffix e s"
      by (auto simp: find_Some_iff)
    let ?r = "take (length s - length e) s"
    from Some have eq: "TrimRightSpace s = TrimRightSpace ?r"
      by (simp add: TrimRightSpace.simps)
    from "1.IH" [OF Some] obtain ws where ws: "set ws \<subseteq> set space_encodings"
      "?r = TrimRightSpace ?r @ concat ws" by blast
    have "s = ?r @ e" using e(2) by (auto simp: suffix_def)
    moreover have "?r @ e = (TrimRightSpace ?r @ concat ws) @ e"
      using ws(2) by (rule arg_cong [where f = "\<lambda>x. x @ e"])
    ultimately have "s = (TrimRightSpace ?r @ concat ws) @ e" by (rule trans)
    then have "s = TrimRightSpace s @ concat (ws @ [e])"
      unfolding eq by simp
    moreover have "set (ws @ [e]) \<subseteq> set space_encodings" using e(1) ws(1) by simp
    ultimately show ?thesis by blast
  qed
qed

lemma TrimSpace_empty_iff: "TrimSpace s = [] \<longleftrightarrow> whitespace_only s"
proof
  assume "TrimSpace s = []"
  then have r: "TrimRightSpace (TrimLeftSpace s) = []" by (simp add: TrimSpace_def)
  obtain ws1 where ws1: "set ws1 \<subseteq> set space_encodings" "s = concat ws1 @ TrimLeftSpace s"
    using TrimLeftSpace_decomp by blast
  obtain ws2 where ws2: "set ws2 \<subseteq> set space_encodings"
    "TrimLeftSpace s = TrimRightSpace (TrimLeftSpace s) @ concat ws2"
    using TrimRightSpace_decomp by blast
  from ws2(2) r have "TrimLeftSpace s = concat ws2" by simp
  with ws1(2) have "s = concat (ws1 @ ws2)" by simp
  moreover have "set (ws1 @ ws2) \<subseteq> set space_encodings" using ws1(1) ws2(1) by simp
  ultimately show "whitespace_only s" unfolding whitespace_only_def by blast
next
  assume "whitespace_only s"
  then obtain ws where "set ws \<subseteq> set space_encodings" "s = concat ws"
    unfolding whitespace_only_def by blast
  then have "TrimLeftSpace s = TrimLeftSpace []"
    using TrimLeftSpace_spaces [of ws "[]"] by simp
  then show "TrimSpace s = []"
    by (simp add: TrimSpace_def TrimLeftSpace_Nil TrimRightSpace_Nil)
qed

section \<open>The validator and the grammar\<close>

lemma spec_label_iff: "spec_label l \<longleftrightarrow> label_ok l"
proof
  assume sp: "spec_label l"
  then have ne: "l \<noteq> []" by (auto simp: spec_label_def)
  then have "hd l \<in> set l" "last l \<in> set l" by simp_all
  with sp have "alnum_hyphen (hd l)" "alnum_hyphen (last l)" by (auto simp: spec_label_def)
  moreover from sp ne have "hd l \<noteq> CHR ''-''"
    by (cases l) (auto simp: spec_label_def)
  moreover from sp ne have "last l \<noteq> CHR ''-''"
    by (cases l rule: rev_cases) (auto simp: spec_label_def)
  ultimately have "alnum (hd l)" "alnum (last l)" by (auto simp: alnum_hyphen_iff)
  with sp ne show "label_ok l" by (auto simp: spec_label_def label_ok_def)
next
  assume ok: "label_ok l"
  then show "spec_label l"
    using label_ok_checks [OF ok]
    by (cases l) (auto simp: spec_label_def label_ok_def HasPrefix_def HasSuffix_def)
qed

lemma spec_hostname_iff: "spec_hostname s \<longleftrightarrow> MatchString validHostnameRegex s"
proof
  assume "spec_hostname s"
  then show "MatchString validHostnameRegex s"
    by (simp add: spec_hostname_def MatchString_validHostnameRegex spec_label_iff)
next
  assume m: "MatchString validHostnameRegex s"
  then have "\<forall>l\<in>set (Split s CHR ''.''). spec_label l"
    by (simp add: MatchString_validHostnameRegex spec_label_iff)
  with match_passes_later_checks(1-5) [OF m] show "spec_hostname s"
    by (simp add: spec_hostname_def HasPrefix_def HasSuffix_def Contains_def)
qed

lemma ValidateHostname_eq_simple: "ValidateHostname h = ValidateHostname_simple h"
  using match_passes_later_checks [of h]
  by (simp add: ValidateHostname_def ValidateHostname_simple_def)

lemma whitespace_only_Cons:
  assumes "whitespace_only (c # t)"
  shows "c \<in> hd ` set space_encodings"
proof -
  from assms obtain ws where ws: "set ws \<subseteq> set space_encodings" "c # t = concat ws"
    unfolding whitespace_only_def by blast
  then obtain w ws' where "ws = w # ws'" by (cases ws) auto
  with ws have w: "w \<in> set space_encodings" "c # t = w @ concat ws'" by simp_all
  then have "w \<noteq> []" using space_encodings_nonempty by metis
  with w(2) have "hd w = c" by (cases w) simp_all
  with w(1) show ?thesis by blast
qed

section \<open>Properties of rounding\<close>

lemma rne_bounds: "\<lfloor>x\<rfloor> \<le> rne x \<and> rne x \<le> \<lfloor>x\<rfloor> + 1"
  by (simp add: rne_def Let_def)

lemma rne_of_int [simp]: "rne (of_int n) = n"
  by (simp add: rne_def)

lemma rne_mono:
  assumes "x \<le> y"
  shows "rne x \<le> rne y"
proof (cases "\<lfloor>x\<rfloor> < \<lfloor>y\<rfloor>")
  case True
  have "rne x \<le> \<lfloor>x\<rfloor> + 1" using rne_bounds by blast
  also have "\<dots> \<le> \<lfloor>y\<rfloor>" using True by simp
  also have "\<dots> \<le> rne y" using rne_bounds by blast
  finally show ?thesis .
next
  case False
  moreover have "\<lfloor>x\<rfloor> \<le> \<lfloor>y\<rfloor>" using assms by (rule floor_mono)
  ultimately have eq: "\<lfloor>x\<rfloor> = \<lfloor>y\<rfloor>" by simp
  then have "x - of_int \<lfloor>x\<rfloor> \<le> y - of_int \<lfloor>y\<rfloor>" using assms by simp
  then show ?thesis
    unfolding rne_def Let_def eq by auto
qed

lemma rne_minus: "rne (- x) = - rne x"
proof (cases "x = of_int \<lfloor>x\<rfloor>")
  case True
  then have "rne (- x) = rne (of_int (- \<lfloor>x\<rfloor>))" by simp
  also have "\<dots> = - \<lfloor>x\<rfloor>" by (rule rne_of_int)
  also have "\<dots> = - rne (of_int \<lfloor>x\<rfloor>)" by simp
  finally show ?thesis using True by simp
next
  case False
  have "of_int \<lfloor>x\<rfloor> \<le> x" by (rule of_int_floor_le)
  with False have r: "of_int \<lfloor>x\<rfloor> < x" by (simp only: order_le_less) auto
  have r2: "x < of_int \<lfloor>x\<rfloor> + 1" by linarith
  have fl: "\<lfloor>- x\<rfloor> = - \<lfloor>x\<rfloor> - 1"
  proof (rule floor_unique)
    show "of_int (- \<lfloor>x\<rfloor> - 1) \<le> - x" using r2 by simp
    show "- x < of_int (- \<lfloor>x\<rfloor> - 1) + 1" using r by simp
  qed
  define f where "f = \<lfloor>x\<rfloor>"
  define d where "d = x - of_int f"
  have d: "0 < d" "d < 1" using r r2 by (simp_all add: d_def f_def)
  have e1: "- x - of_int (- f - 1) = 1 - d" by (simp add: d_def)
  have ev: "even (- f - 1) \<longleftrightarrow> odd f" by simp
  show ?thesis
    unfolding rne_def Let_def fl f_def [symmetric] e1 d_def [symmetric] ev
    using d by auto
qed

lemma rne_0 [simp]: "rne 0 = 0"
  by (simp add: rne_def)

lemma rne_nonneg: "0 \<le> x \<Longrightarrow> 0 \<le> rne x"
  using rne_mono [of 0 x] by simp

subsection \<open>Binades\<close>

lemma of_int_less_pow2: "k < 2 ^ n \<Longrightarrow> (of_int k :: rat) < 2 ^ n"
  by (metis of_int_less_iff of_int_numeral of_int_power)

lemma pow2_le_of_int: "2 ^ n \<le> k \<Longrightarrow> (2 ^ n :: rat) \<le> of_int k"
  by (metis of_int_le_iff of_int_numeral of_int_power)

lemma ilog2_bounds:
  assumes "0 < x"
  shows "power_int 2 (ilog2 x) \<le> x \<and> x < power_int 2 (ilog2 x + 1)"
proof -
  obtain p q where pq: "quotient_of x = (p, q)" by (cases "quotient_of x")
  then have q: "0 < q" by (rule quotient_of_denom_pos)
  have x: "x = of_int p / of_int q" using pq by (rule quotient_of_div)
  with assms q have p: "0 < p" by (simp add: zero_less_divide_iff)
  let ?a = "bitlen p" and ?b = "bitlen q"
  have a1: "1 \<le> ?a" using p by (simp add: bitlen_alt_def)
  have b1: "1 \<le> ?b" using q by (simp add: bitlen_alt_def)
  have pa: "2 ^ nat (?a - 1) \<le> p" "p < 2 ^ nat ?a" using bitlen_bounds [OF p] by simp_all
  have qb: "2 ^ nat (?b - 1) \<le> q" "q < 2 ^ nat ?b" using bitlen_bounds [OF q] by simp_all
  have P: "(2::rat) ^ nat (?a - 1) \<le> of_int p" "(of_int p :: rat) < 2 ^ nat ?a"
    using pa by (simp_all add: pow2_le_of_int of_int_less_pow2)
  have Q: "(2::rat) ^ nat (?b - 1) \<le> of_int q" "(of_int q :: rat) < 2 ^ nat ?b"
    using qb by (simp_all add: pow2_le_of_int of_int_less_pow2)
  have q0: "(0::rat) < of_int q" using q by simp
  have p0: "(0::rat) < of_int p" using p by simp
  have upper: "x < power_int 2 (?a - ?b + 1)"
  proof -
    have "x < 2 ^ nat ?a / 2 ^ nat (?b - 1)"
      unfolding x using P(2) Q(1) p0 q0
      by (intro frac_less) simp_all
    also have "\<dots> = power_int 2 ?a / power_int 2 (?b - 1)"
      using a1 b1 by (simp add: power_int_def)
    also have "\<dots> = power_int 2 (?a - (?b - 1))"
      by (simp add: power_int_diff)
    finally show ?thesis by (simp add: algebra_simps)
  qed
  have lower: "power_int 2 (?a - ?b - 1) \<le> x"
  proof -
    have "power_int (2::rat) (?a - ?b - 1) = power_int 2 ((?a - 1) - ?b)"
      by (simp add: algebra_simps)
    also have "\<dots> = power_int 2 (?a - 1) / power_int 2 ?b"
      by (simp add: power_int_diff)
    also have "\<dots> = 2 ^ nat (?a - 1) / 2 ^ nat ?b"
      using a1 b1 by (simp add: power_int_def)
    also have "\<dots> \<le> x"
      unfolding x using P(1) Q(2) q0 p0
      by (intro frac_le) simp_all
    finally show ?thesis .
  qed
  show ?thesis
  proof (cases "power_int 2 (?a - ?b) \<le> x")
    case True
    then have "ilog2 x = ?a - ?b" by (simp add: ilog2_def pq)
    with True upper show ?thesis by simp
  next
    case False
    then have "ilog2 x = ?a - ?b - 1" by (simp add: ilog2_def pq)
    with False lower show ?thesis by simp
  qed
qed

subsection \<open>Rounding to float64\<close>

lemma ulp_pos: "(0::rat) < power_int 2 e"
  by (simp add: power_int_def)

lemma pow_split:
  "power_int (2::rat) e = power_int 2 (e - 52) * 2 ^ 52"
  "power_int (2::rat) (e + 1) = power_int 2 (e - 52) * 2 ^ 53"
proof -
  have "e = (e - 52) + 52" by simp
  then have "power_int (2::rat) e = power_int 2 ((e - 52) + 52)" by (rule arg_cong)
  also have "\<dots> = power_int 2 (e - 52) * power_int 2 52"
    by (rule power_int_add) simp
  finally show "power_int (2::rat) e = power_int 2 (e - 52) * 2 ^ 52" by simp
  have "e + 1 = (e - 52) + 53" by simp
  then have "power_int (2::rat) (e + 1) = power_int 2 ((e - 52) + 53)" by (rule arg_cong)
  also have "\<dots> = power_int 2 (e - 52) * power_int 2 53"
    by (rule power_int_add) simp
  finally show "power_int (2::rat) (e + 1) = power_int 2 (e - 52) * 2 ^ 53" by simp
qed

lemma f64_0 [simp]: "f64 0 = 0"
  by (simp add: f64_def)

lemma f64_minus: "f64 (- x) = - f64 x"
  by (simp add: f64_def Let_def rne_minus)

lemma f64_pos_bounds:
  assumes "0 < x"
  shows "power_int 2 (ilog2 x) \<le> f64 x \<and> f64 x \<le> power_int 2 (ilog2 x + 1)"
proof -
  define e where "e = ilog2 x"
  define u :: rat where "u = power_int 2 (e - 52)"
  have u: "0 < u" unfolding u_def by (rule ulp_pos)
  have b: "u * 2 ^ 52 \<le> x" "x < u * 2 ^ 53"
    using ilog2_bounds [OF assms] pow_split [of e] by (simp_all add: e_def u_def)
  have "2 ^ 52 \<le> x / u" using b(1) u by (simp add: pos_le_divide_eq mult.commute)
  then have "rne (of_int (2 ^ 52)) \<le> rne (x / u)" by (intro rne_mono) simp
  then have lo: "2 ^ 52 \<le> rne (x / u)" by (simp only: rne_of_int)
  have "x / u \<le> 2 ^ 53" using b(2) u by (simp add: pos_divide_le_eq mult.commute)
  then have "rne (x / u) \<le> rne (of_int (2 ^ 53))" by (intro rne_mono) simp
  then have hi: "rne (x / u) \<le> 2 ^ 53" by (simp only: rne_of_int)
  have f: "f64 x = of_int (rne (x / u)) * u"
    using assms by (simp add: f64_def Let_def u_def e_def)
  have "(2 ^ 52 :: rat) \<le> of_int (rne (x / u))" using lo by (rule pow2_le_of_int)
  then have "2 ^ 52 * u \<le> of_int (rne (x / u)) * u" using u by simp
  moreover have "(of_int (rne (x / u)) :: rat) \<le> 2 ^ 53"
    using hi by (metis of_int_le_iff of_int_numeral of_int_power)
  then have "of_int (rne (x / u)) * u \<le> 2 ^ 53 * u" using u by simp
  ultimately show ?thesis
    unfolding f e_def [symmetric] pow_split [of e] u_def [symmetric]
    by (simp add: mult.commute)
qed

lemma f64_nonneg: "0 \<le> x \<Longrightarrow> 0 \<le> f64 x"
proof (cases "x = 0")
  case True
  then show ?thesis by simp
next
  case False
  assume "0 \<le> x"
  with False have "0 < x" by simp
  then have "power_int 2 (ilog2 x) \<le> f64 x" using f64_pos_bounds by blast
  moreover have "(0::rat) < power_int 2 (ilog2 x)" by (rule ulp_pos)
  ultimately show ?thesis by linarith
qed

lemma f64_mono_pos:
  assumes "0 < x" and "x \<le> y"
  shows "f64 x \<le> f64 y"
proof -
  have y: "0 < y" using assms by simp
  have le: "ilog2 x \<le> ilog2 y"
  proof (rule ccontr)
    assume "\<not> ilog2 x \<le> ilog2 y"
    then have "ilog2 y + 1 \<le> ilog2 x" by simp
    then have "power_int (2::rat) (ilog2 y + 1) \<le> power_int 2 (ilog2 x)"
      by (rule power_int_increasing) simp
    with ilog2_bounds [OF assms(1)] ilog2_bounds [OF y] assms(2) show False by linarith
  qed
  show ?thesis
  proof (cases "ilog2 x = ilog2 y")
    case True
    define u :: rat where "u = power_int 2 (ilog2 y - 52)"
    have u: "0 < u" unfolding u_def by (rule ulp_pos)
    have "x / u \<le> y / u" using assms(2) u by (simp add: divide_right_mono)
    then have "rne (x / u) \<le> rne (y / u)" by (rule rne_mono)
    then have "(of_int (rne (x / u)) :: rat) * u \<le> of_int (rne (y / u)) * u"
      using u by simp
    then show ?thesis
      using assms(1) y True by (simp add: f64_def Let_def u_def)
  next
    case False
    with le have "ilog2 x + 1 \<le> ilog2 y" by simp
    then have "power_int (2::rat) (ilog2 x + 1) \<le> power_int 2 (ilog2 y)"
      by (rule power_int_increasing) simp
    with f64_pos_bounds [OF assms(1)] f64_pos_bounds [OF y] show ?thesis by linarith
  qed
qed

lemma f64_mono:
  assumes "x \<le> y"
  shows "f64 x \<le> f64 y"
proof -
  consider (pos) "0 < x" | (neg) "y < 0" | (mid) "x \<le> 0" "0 \<le> y" by linarith
  then show ?thesis
  proof cases
    case pos
    then show ?thesis using assms by (rule f64_mono_pos)
  next
    case neg
    then have "0 < - y" "- y \<le> - x" using assms by simp_all
    then have "f64 (- y) \<le> f64 (- x)" by (rule f64_mono_pos)
    then show ?thesis by (simp add: f64_minus)
  next
    case mid
    have "0 \<le> f64 (- x)" using mid(1) by (intro f64_nonneg) simp
    then have "f64 x \<le> 0" by (simp add: f64_minus)
    moreover have "0 \<le> f64 y" using mid(2) by (rule f64_nonneg)
    ultimately show ?thesis by simp
  qed
qed

lemma f64_of_nat_exact:
  assumes "0 < n" and "n \<le> 2 ^ 52"
  shows "f64 (of_int n) = of_int n"
proof -
  define e where "e = ilog2 (of_int n)"
  have pos: "(0::rat) < of_int n" using assms by simp
  have "power_int (2::rat) e \<le> of_int n" using ilog2_bounds [OF pos] by (simp add: e_def)
  also have "(of_int n :: rat) \<le> 2 ^ 52"
    using assms(2) by (metis of_int_le_iff of_int_numeral of_int_power)
  finally have "power_int (2::rat) e \<le> power_int 2 52" by simp
  then have e52: "e \<le> 52" by (rule power_int_le_imp_le_exp [rotated]) simp_all
  define k where "k = nat (52 - e)"
  have u: "power_int (2::rat) (e - 52) = 1 / 2 ^ k"
    using e52 by (simp add: power_int_def k_def field_simps)
  have "(of_int n :: rat) / (1 / 2 ^ k) = of_int (n * 2 ^ k)" by simp
  then have "rne (of_int n / (1 / 2 ^ k)) = n * 2 ^ k" by (simp only: rne_of_int)
  then show ?thesis
    using pos by (simp add: f64_def Let_def e_def [symmetric] u)
qed

lemma f64_of_int_exact:
  assumes "\<bar>n\<bar> \<le> 2 ^ 52"
  shows "f64 (of_int n) = of_int n"
proof -
  consider "n = 0" | "0 < n" | "n < 0" by linarith
  then show ?thesis
  proof cases
    case 1
    then show ?thesis by simp
  next
    case 2
    then show ?thesis using assms by (intro f64_of_nat_exact) simp_all
  next
    case 3
    then have "f64 (of_int (- n)) = of_int (- n)" using assms by (intro f64_of_nat_exact) simp_all
    then show ?thesis by (simp add: f64_minus)
  qed
qed

section \<open>Hours and days remaining\<close>

lemma f64_1 [simp]: "f64 1 = 1"
  using f64_of_int_exact [of 1] by simp

lemma Hours_minus: "Hours (- d) = - Hours d"
proof -
  have "(- d) sdiv Hour = - (d sdiv Hour)"
    by (simp add: signed_divide_int_def)
  moreover have "(- d) smod Hour = - (d smod Hour)"
    by (simp add: signed_modulo_int_def)
  moreover have "f64 (- a - b) = - f64 (a + b)" for a b :: rat
  proof -
    have "- a - b = - (a + b)" by simp
    then show ?thesis by (simp only: f64_minus)
  qed
  ultimately show ?thesis
    by (simp add: Hours_def Let_def f64_minus)
qed

lemma Hours_nonneg_form:
  assumes "0 \<le> d" and "d \<le> 2 ^ 63"
  shows "Hours d = f64 (of_int (d div Hour) + f64 (of_int (d mod Hour) / 3600000000000))"
proof -
  have sd: "d sdiv Hour = d div Hour"
    using assms(1) by (auto simp: signed_divide_int_def Hour_def sgn_if)
  have sm: "d smod Hour = d mod Hour"
    using assms(1) by (auto simp: signed_modulo_int_def Hour_def sgn_if)
  have "0 \<le> d div Hour" using assms(1) by (simp add: Hour_def pos_imp_zdiv_nonneg_iff)
  moreover have "d div Hour \<le> 2 ^ 63 div Hour"
    using assms(2) by (rule zdiv_mono1) (simp add: Hour_def)
  moreover have "(2 ^ 63 :: int) div Hour \<le> 2 ^ 52" by (simp add: Hour_def)
  ultimately have h: "\<bar>d div Hour\<bar> \<le> 2 ^ 52" by linarith
  have "0 \<le> d mod Hour" "d mod Hour < Hour" by (simp_all add: Hour_def)
  then have n: "\<bar>d mod Hour\<bar> \<le> 2 ^ 52" by (simp add: Hour_def)
  show ?thesis
    by (simp add: Hours_def Let_def sd sm f64_of_int_exact [OF h] f64_of_int_exact [OF n])
qed

lemma frac_bounds:
  assumes "0 \<le> n" and "n < Hour"
  shows "0 \<le> f64 (of_int n / 3600000000000) \<and> f64 (of_int n / 3600000000000) \<le> 1"
proof -
  have "(0::rat) \<le> of_int n / 3600000000000" using assms(1) by simp
  then have lo: "0 \<le> f64 (of_int n / 3600000000000)" by (rule f64_nonneg)
  have "(of_int n :: rat) \<le> 3600000000000"
    using assms(2) unfolding Hour_def by (metis less_imp_le of_int_le_iff of_int_numeral)
  then have "(of_int n :: rat) / 3600000000000 \<le> 1" by simp
  then have "f64 (of_int n / 3600000000000) \<le> f64 1" by (rule f64_mono)
  with lo show ?thesis by simp
qed

lemma Hours_mono_nonneg:
  assumes "0 \<le> d1" and "d1 \<le> d2" and "d2 \<le> 2 ^ 63"
  shows "Hours d1 \<le> Hours d2"
proof -
  have d2: "0 \<le> d2" and d1: "d1 \<le> 2 ^ 63" using assms by simp_all
  let ?f = "\<lambda>d. f64 (of_int (d mod Hour) / 3600000000000)"
  have Hpos: "0 < Hour" by (simp add: Hour_def)
  have f1: "0 \<le> ?f d1 \<and> ?f d1 \<le> 1"
    by (rule frac_bounds) (simp_all add: Hour_def)
  have f2: "0 \<le> ?f d2 \<and> ?f d2 \<le> 1"
    by (rule frac_bounds) (simp_all add: Hour_def)
  have hle: "d1 div Hour \<le> d2 div Hour"
    using assms(2) Hpos by (rule zdiv_mono1)
  have "(of_int (d1 div Hour) :: rat) + ?f d1 \<le> of_int (d2 div Hour) + ?f d2"
  proof (cases "d1 div Hour = d2 div Hour")
    case True
    have "d1 mod Hour = d1 - (d1 div Hour) * Hour" by (simp add: minus_div_mult_eq_mod)
    moreover have "d2 mod Hour = d2 - (d2 div Hour) * Hour" by (simp add: minus_div_mult_eq_mod)
    ultimately have "d1 mod Hour \<le> d2 mod Hour" using True assms(2) by simp
    then have "(of_int (d1 mod Hour) :: rat) / 3600000000000 \<le> of_int (d2 mod Hour) / 3600000000000"
      by (simp add: divide_right_mono)
    then have "?f d1 \<le> ?f d2" by (rule f64_mono)
    with True show ?thesis by simp
  next
    case False
    with hle have "d1 div Hour + 1 \<le> d2 div Hour" by simp
    then have "(of_int (d1 div Hour) :: rat) + 1 \<le> of_int (d2 div Hour)"
      by (metis of_int_1 of_int_add of_int_le_iff)
    with f1 f2 show ?thesis by linarith
  qed
  then have "f64 (of_int (d1 div Hour) + ?f d1) \<le> f64 (of_int (d2 div Hour) + ?f d2)"
    by (rule f64_mono)
  then show ?thesis
    by (simp add: Hours_nonneg_form [OF assms(1) d1] Hours_nonneg_form [OF d2 assms(3)])
qed

lemma Hours_0 [simp]: "Hours 0 = 0"
  by (simp add: Hours_def signed_divide_int_def signed_modulo_int_def)

lemma Hours_mono:
  assumes "\<bar>d1\<bar> \<le> 2 ^ 63" and "\<bar>d2\<bar> \<le> 2 ^ 63" and "d1 \<le> d2"
  shows "Hours d1 \<le> Hours d2"
proof -
  consider (pos) "0 \<le> d1" | (neg) "d2 \<le> 0" | (mid) "d1 < 0" "0 < d2" by linarith
  then show ?thesis
  proof cases
    case pos
    then show ?thesis using assms by (intro Hours_mono_nonneg) simp_all
  next
    case neg
    then have "Hours (- d2) \<le> Hours (- d1)" using assms by (intro Hours_mono_nonneg) simp_all
    then show ?thesis by (simp add: Hours_minus)
  next
    case mid
    have "Hours 0 \<le> Hours (- d1)" using mid(1) assms(1) by (intro Hours_mono_nonneg) simp_all
    moreover have "Hours 0 \<le> Hours d2" using mid(2) assms(2) by (intro Hours_mono_nonneg) simp_all
    ultimately show ?thesis by (simp add: Hours_minus)
  qed
qed

lemma float_to_int_mono:
  assumes "x \<le> y"
  shows "float_to_int x \<le> float_to_int y"
proof -
  consider (pos) "0 \<le> x" | (neg) "y < 0" | (mid) "x < 0" "0 \<le> y" by linarith
  then show ?thesis
  proof cases
    case pos
    then show ?thesis using assms by (simp add: float_to_int_def floor_mono)
  next
    case neg
    then show ?thesis using assms by (simp add: float_to_int_def ceiling_mono)
  next
    case mid
    have "\<lceil>x\<rceil> \<le> 0" using mid(1) by (simp add: ceiling_le_iff)
    moreover have "0 \<le> \<lfloor>y\<rfloor>" using mid(2) by simp
    ultimately have "\<lceil>x\<rceil> \<le> \<lfloor>y\<rfloor>" by (rule order_trans)
    then show ?thesis using mid by (simp add: float_to_int_def)
  qed
qed

lemma Sub_range: "\<bar>Sub t u\<bar> \<le> 2 ^ 63"
  unfolding Sub_def minDuration_def maxDuration_def by (simp add: abs_le_iff)

lemma Sub_mono: "t1 \<le> t2 \<Longrightarrow> Sub t1 u \<le> Sub t2 u"
  by (simp add: Sub_def minDuration_def maxDuration_def)

lemma timeLeft_mono:
  assumes "t1 \<le> t2"
  shows "timeLeft now t1 \<le> timeLeft now t2"
proof -
  have "Hours (Until now t1) \<le> Hours (Until now t2)"
    unfolding Until_def using Sub_range Sub_range Sub_mono [OF assms] by (rule Hours_mono)
  then have "Hours (Until now t1) / 24 \<le> Hours (Until now t2) / 24"
    by (simp add: divide_right_mono)
  then have "f64 (Hours (Until now t1) / 24) \<le> f64 (Hours (Until now t2) / 24)"
    by (rule f64_mono)
  then show ?thesis unfolding timeLeft_def by (rule float_to_int_mono)
qed

lemma Until_offset:
  "minDuration \<le> k \<Longrightarrow> k \<le> maxDuration \<Longrightarrow> Until now (now + k) = k"
  by (simp add: Until_def Sub_def)

lemma days_10: "float_to_int (f64 (Hours 864000000000000 / 24)) = 10"
  by code_simp

lemma days_11_minus: "float_to_int (f64 (Hours 950399999999999 / 24)) = 10"
  by code_simp

lemma days_minus_24h: "float_to_int (f64 (Hours (- 86400000000000) / 24)) = - 1"
  by code_simp

lemma days_minus_24h_plus: "float_to_int (f64 (Hours (- 86399999999999) / 24)) = 0"
  by code_simp

lemma days_minus_half_second: "float_to_int (f64 (Hours (- 500000000) / 24)) = 0"
  by code_simp

lemma timeLeft_10_days:
  assumes "now + 864000000000000 \<le> notAfter" and "notAfter < now + 950400000000000"
  shows "timeLeft now notAfter = 10"
proof -
  have lo: "timeLeft now (now + 864000000000000) = 10"
    by (simp add: timeLeft_def Until_offset minDuration_def maxDuration_def days_10)
  have hi: "timeLeft now (now + 950399999999999) = 10"
    by (simp add: timeLeft_def Until_offset minDuration_def maxDuration_def days_11_minus)
  have "timeLeft now (now + 864000000000000) \<le> timeLeft now notAfter"
    using assms(1) by (rule timeLeft_mono)
  moreover have "timeLeft now notAfter \<le> timeLeft now (now + 950399999999999)"
    using assms(2) by (intro timeLeft_mono) simp
  ultimately show ?thesis using lo hi by simp
qed

lemma timeLeft_negative_iff:
  "timeLeft now notAfter < 0 \<longleftrightarrow> notAfter \<le> now - 86400000000000"
proof
  assume neg: "timeLeft now notAfter < 0"
  show "notAfter \<le> now - 86400000000000"
  proof (rule ccontr)
    assume "\<not> notAfter \<le> now - 86400000000000"
    then have "now + (- 86399999999999) \<le> notAfter" by simp
    then have "timeLeft now (now + (- 86399999999999)) \<le> timeLeft now notAfter"
      by (rule timeLeft_mono)
    moreover have "timeLeft now (now + (- 86399999999999)) = 0"
      by (simp add: timeLeft_def Until_offset minDuration_def maxDuration_def
          days_minus_24h_plus del: add_uminus_conv_diff)
    ultimately show False using neg by simp
  qed
next
  assume "notAfter \<le> now - 86400000000000"
  then have "notAfter \<le> now + (- 86400000000000)" by simp
  then have "timeLeft now notAfter \<le> timeLeft now (now + (- 86400000000000))"
    by (rule timeLeft_mono)
  moreover have "timeLeft now (now + (- 86400000000000)) = - 1"
    by (simp add: timeLeft_def Until_offset minDuration_def maxDuration_def
        days_minus_24h del: add_uminus_conv_diff)
  ultimately show "timeLeft now notAfter < 0" by simp
qed

lemma timeLeft_now: "timeLeft now now = 0"
  using Until_offset [of 0 now]
  by (simp add: timeLeft_def minDuration_def maxDuration_def float_to_int_def)

lemma timeLeft_nonneg:
  assumes "now \<le> notAfter"
  shows "0 \<le> timeLeft now notAfter"
  using timeLeft_mono [OF assms, of now] by (simp add: timeLeft_now)

lemma timeLeft_nonpos:
  assumes "notAfter \<le> now"
  shows "timeLeft now notAfter \<le> 0"
  using timeLeft_mono [OF assms, of now] by (simp add: timeLeft_now)

lemma timeLeft_floor:
  assumes "now \<le> notAfter"
  shows "timeLeft now notAfter = \<lfloor>f64 (Hours (Until now notAfter) / 24)\<rfloor>"
proof -
  have "Sub now now \<le> Sub notAfter now" using assms by (rule Sub_mono)
  then have "0 \<le> Sub notAfter now" by (simp add: Sub_def minDuration_def maxDuration_def)
  with Hours_mono [of 0 "Sub notAfter now"] Sub_range [of notAfter now]
  have "0 \<le> Hours (Until now notAfter)" by (simp add: Hours_0 Until_def)
  then have "0 \<le> f64 (Hours (Until now notAfter) / 24)" by (intro f64_nonneg) simp
  then show ?thesis by (simp add: timeLeft_def float_to_int_def)
qed

lemma timeLeft_expiring: "timeLeft 1500000000 1000000000 = 0"
  using Until_offset [of "- 500000000" 1500000000]
  by (simp add: timeLeft_def minDuration_def maxDuration_def days_minus_half_second)

section \<open>Properties of the prober\<close>

lemma IsValid_example: "IsValid ''example.com''"
proof -
  have "ValidateHostname_simple ''example.com'' = None" by code_simp
  then show ?thesis by (simp add: IsValid_def ValidateHostname_eq_simple)
qed

lemma CheckSSLCertificate_present:
  "fst (snd (CheckSSLCertificate env ctx h)) \<noteq> None
     \<longleftrightarrow> snd (snd (CheckSSLCertificate env ctx h)) = None"
  by (simp add: CheckSSLCertificate_def split: prod.splits option.splits list.splits)

lemma CheckSSLCertificate_legacy_present:
  "fst (snd (CheckSSLCertificate_legacy env ctx h)) \<noteq> None
     \<longleftrightarrow> snd (snd (CheckSSLCertificate_legacy env ctx h)) = None"
  by (simp add: CheckSSLCertificate_legacy_def split: prod.splits option.splits list.splits)

text \<open>
  The revision of cert\_check.go behaves, whatever its context, as the later revision does
  with a context that never ends.
\<close>

lemma CheckSSLCertificate_legacy_ignores_context:
  "CheckSSLCertificate_legacy env ctx hostname = CheckSSLCertificate env Never hostname"
  by (simp add: CheckSSLCertificate_legacy_def CheckSSLCertificate_def DialContext_def
      HandshakeContext_def split: prod.splits option.splits list.splits)

text \<open>
  A probe that returns a certificate has connected, has completed a handshake that found
  the leaf certificate within its validity period, and reports that leaf.
\<close>

lemma CheckSSLCertificate_success:
  assumes "CheckSSLCertificate env ctx h = (trace, Some cert, None)"
  shows "\<exists>leaf rest. peer_certificates env h = leaf # rest \<and>
           cert = \<lparr>Hostname = h, ExpiryDate = NotAfter leaf,
                    TimeLeft = timeLeft (now_until env) (NotAfter leaf)\<rparr> \<and>
           NotBefore leaf \<le> now_handshake env \<and> now_handshake env \<le> NotAfter leaf"
  using assms
  by (auto simp: CheckSSLCertificate_def HandshakeContext_def Handshake_def
      split: if_splits prod.splits option.splits list.splits)

lemma CheckSSLCertificate_reachable:
  "CheckSSLCertificate reachable_env Never ''example.com''
     = ([Connect ''example.com:443'', TLSHandshake ''example.com'', CloseClient, CloseConn],
        Some \<lparr>Hostname = ''example.com'', ExpiryDate = 864000000000000, TimeLeft = 10\<rparr>,
        None)"
proof -
  have t: "timeLeft 0 864000000000000 = 10"
    using timeLeft_10_days [of 0 864000000000000] by simp
  show ?thesis
    by (simp add: CheckSSLCertificate_def IsValid_example reachable_env_def JoinHostPort_def
        DialContext_def DialTimeout_def HandshakeContext_def Handshake_def t)
qed

section \<open>Properties of runs of the pool\<close>

lemma exec_append:
  "exec env (es1 @ es2) wp =
     (case exec env es1 wp of
        Next wp' \<Rightarrow> exec env es2 wp'
      | Panic \<Rightarrow> Panic
      | Blocked \<Rightarrow> Blocked)"
  by (induction es1 arbitrary: wp) (auto split: outcome.splits)

lemma stop_closed_step:
  assumes "stop_closed wp" and "step env wp e = Next wp'"
  shows "stop_closed wp'"
proof (cases e)
  case CallStart
  with assms show ?thesis by (auto simp: stop_closed_def WorkerPool_Start_def)
next
  case (CallAddTaskSend t)
  with assms show ?thesis
    by (auto simp: stop_closed_def AddTask_send_def chan_send_def split: if_splits)
next
  case (CallAddTaskDone t)
  with assms show ?thesis by (auto simp: stop_closed_def AddTask_done_def split: if_splits)
next
  case CallStop
  with assms show ?thesis by (auto simp: stop_closed_def Stop_begin_def split: if_splits)
next
  case ReceiveResult
  with assms show ?thesis by (auto simp: stop_closed_def split: list.splits if_splits)
next
  case (StopStep k)
  with assms show ?thesis
    by (auto simp: stop_closed_def Stop_step_def split: if_splits stop_pc.splits)
next
  case (WorkerReceive i)
  with assms show ?thesis
    by (auto simp: stop_closed_def worker_receive_def split: if_splits list.splits)
next
  case (WorkerSend i)
  with assms show ?thesis
    by (auto simp: stop_closed_def worker_send_def chan_send_def split: if_splits wstate.splits)
next
  case (WorkerDone i)
  with assms show ?thesis
    by (auto simp: stop_closed_def worker_done_def split: if_splits wstate.splits)
qed

lemma stop_closed_exec:
  "stop_closed wp \<Longrightarrow> exec env es wp = Next wp' \<Longrightarrow> stop_closed wp'"
proof (induction es arbitrary: wp)
  case Nil
  then show ?case by simp
next
  case (Cons e es)
  then obtain wp1 where s: "step env wp e = Next wp1" and r: "exec env es wp1 = Next wp'"
    by (auto split: outcome.splits)
  from Cons.prems(1) s have "stop_closed wp1" by (rule stop_closed_step)
  then show ?case using r by (rule Cons.IH)
qed

lemma stop_run:
  "exec offline_env [CallStart, CallStop, StopStep 0, StopStep 0, StopStep 0] (NewWorkerPool 0)
     = Next \<lparr>tasks = [], tasks_closed = True, results = [], results_closed = True,
             workers = 0, wg = 0, ctx_done = True, goroutines = [], stops = [Returned]\<rparr>"
  by (simp add: NewWorkerPool_def WorkerPool_Start_def Stop_begin_def Stop_step_def)

lemma filling_start: "filling 0 (WorkerPool_Start (NewWorkerPool 1))"
  by (simp add: filling_def WorkerPool_Start_def NewWorkerPool_def)

lemma filling_round:
  assumes "filling k wp" and "k < chan_cap"
  shows "\<exists>wp'. exec env round_events wp = Next wp' \<and> filling (Suc k) wp'"
  using assms
  by (simp add: filling_def round_events_def AddTask_send_def chan_send_def chan_cap_def
      worker_receive_def worker_send_def)

lemma filling_rounds:
  assumes "filling k wp" and "k + n \<le> chan_cap"
  shows "\<exists>wp'. exec env (concat (replicate n round_events)) wp = Next wp' \<and> filling (k + n) wp'"
  using assms
proof (induction n arbitrary: k wp)
  case 0
  then show ?case by simp
next
  case (Suc n)
  from Suc.prems have "k < chan_cap" by simp
  with Suc.prems(1) obtain wp1 where
    r: "exec env round_events wp = Next wp1" and f: "filling (Suc k) wp1"
    using filling_round by blast
  from Suc.prems(2) have "Suc k + n \<le> chan_cap" by simp
  with f obtain wp' where
    "exec env (concat (replicate n round_events)) wp1 = Next wp'" "filling (Suc k + n) wp'"
    using Suc.IH by blast
  with r show ?case by (simp add: exec_append)
qed

lemma filling_stuck:
  assumes "filling chan_cap wp"
  shows "\<exists>wp'. exec env [CallAddTaskSend empty_task, WorkerReceive 0, CallStop] wp = Next wp'
           \<and> stuck wp'"
  using assms
  by (simp add: filling_def stuck_def AddTask_send_def chan_send_def chan_cap_def
      worker_receive_def Stop_begin_def)

lemma stuck_blocked:
  assumes "stuck wp" and "internal e"
  shows "step env wp e = Blocked"
proof (cases e)
  case (StopStep k)
  with assms(1) show ?thesis by (cases k) (auto simp: stuck_def Stop_step_def)
next
  case (WorkerReceive i)
  with assms(1) show ?thesis by (cases i) (auto simp: stuck_def worker_receive_def)
next
  case (WorkerSend i)
  with assms(1) show ?thesis
    by (cases i) (auto simp: stuck_def worker_send_def chan_send_def)
next
  case (WorkerDone i)
  with assms(1) show ?thesis by (cases i) (auto simp: stuck_def worker_done_def)
qed (use assms(2) in simp_all)

lemma unread_schedule_stuck:
  "\<exists>wp. exec env unread_schedule (NewWorkerPool 1) = Next wp \<and> stuck wp"
proof -
  obtain wp1 where
    a: "exec env (concat (replicate 100 round_events)) (WorkerPool_Start (NewWorkerPool 1)) = Next wp1"
    and f: "filling (0 + 100) wp1"
    using filling_rounds [OF filling_start, of 100 env] by (auto simp: chan_cap_def)
  from f have "filling chan_cap wp1" by (simp add: chan_cap_def)
  then obtain wp where
    b: "exec env [CallAddTaskSend empty_task, WorkerReceive 0, CallStop] wp1 = Next wp"
    and s: "stuck wp"
    using filling_stuck by blast
  have "exec env unread_schedule (NewWorkerPool 1) = Next wp"
    unfolding unread_schedule_def using a b by (simp add: exec_append)
  with s show ?thesis by blast
qed

lemma stuck_waiting: "stuck wp \<Longrightarrow> waiting wp"
  by (auto simp: stuck_def waiting_def alive_def)

lemma alive_update_exit:
  assumes "i < length gs" and "gs ! i \<noteq> Exited"
  shows "length (filter (\<lambda>g. g \<noteq> Exited) (gs[i := Exited]))
           = length (filter (\<lambda>g. g \<noteq> Exited) gs) - 1
         \<and> 0 < length (filter (\<lambda>g. g \<noteq> Exited) gs)"
  using assms
proof (induction gs arbitrary: i)
  case Nil
  then show ?case by simp
next
  case (Cons g gs)
  show ?case
  proof (cases i)
    case 0
    with Cons.prems show ?thesis by simp
  next
    case (Suc j)
    with Cons.prems have "j < length gs" "gs ! j \<noteq> Exited" by simp_all
    then have "length (filter (\<lambda>g. g \<noteq> Exited) (gs[j := Exited]))
                 = length (filter (\<lambda>g. g \<noteq> Exited) gs) - 1
               \<and> 0 < length (filter (\<lambda>g. g \<noteq> Exited) gs)"
      by (rule Cons.IH)
    with Suc show ?thesis by auto
  qed
qed

lemma alive_update_keep:
  assumes "i < length gs" and "gs ! i \<noteq> Exited" and "g' \<noteq> Exited"
  shows "length (filter (\<lambda>g. g \<noteq> Exited) (gs[i := g']))
           = length (filter (\<lambda>g. g \<noteq> Exited) gs)"
  using assms
proof (induction gs arbitrary: i)
  case Nil
  then show ?case by simp
next
  case (Cons g gs)
  then show ?case by (cases i) auto
qed

lemma waiting_step:
  assumes "waiting wp" and "e \<noteq> ReceiveResult" and "step env wp e = Next wp'"
  shows "waiting wp'"
proof (cases e)
  case CallStart
  with assms show ?thesis
    by (auto simp: waiting_def alive_def WorkerPool_Start_def)
next
  case (CallAddTaskSend t)
  with assms show ?thesis by (auto simp: waiting_def AddTask_send_def chan_send_def)
next
  case (CallAddTaskDone t)
  with assms show ?thesis by (auto simp: waiting_def AddTask_done_def)
next
  case CallStop
  with assms show ?thesis by (auto simp: waiting_def Stop_begin_def)
next
  case ReceiveResult
  with assms show ?thesis by simp
next
  case (StopStep k)
  from assms(1) obtain r rest where g: "goroutines wp = Publishing r # rest"
    by (auto simp: waiting_def)
  then have "0 < alive wp" by (simp add: alive_def)
  with assms(1) have "wg wp \<noteq> 0" by (simp add: waiting_def)
  moreover have "stops wp ! k = AtWait" if "k < length (stops wp)"
    using assms(1) that by (auto simp: waiting_def)
  ultimately have "Stop_step wp k = Blocked" by (simp add: Stop_step_def)
  with StopStep assms(3) show ?thesis by simp
next
  case (WorkerReceive i)
  from assms(1) obtain r rest where g: "goroutines wp = Publishing r # rest"
    by (auto simp: waiting_def)
  from WorkerReceive assms(3) have i: "i < length (goroutines wp)" "goroutines wp ! i = Receiving"
    by (auto simp: worker_receive_def split: if_splits)
  with g obtain j where j: "i = Suc j" by (cases i) auto
  have ne: "goroutines wp ! i \<noteq> Exited" using i by simp
  show ?thesis
  proof (cases "tasks wp")
    case Nil
    with WorkerReceive assms(3) i assms(1)
    have wp': "wp' = wp\<lparr>wg := wg wp - 1, goroutines := (goroutines wp)[i := Exited]\<rparr>"
      by (auto simp: worker_receive_def waiting_def)
    from alive_update_exit [OF i(1) ne]
    have "alive wp' = alive wp - 1" "0 < alive wp" by (simp_all add: alive_def wp')
    then have "wg wp' = int (alive wp')" using assms(1) by (simp add: waiting_def wp')
    with assms(1) g j show ?thesis by (auto simp: waiting_def wp')
  next
    case (Cons t ts)
    with WorkerReceive assms(3) i
    have wp': "wp' = wp\<lparr>tasks := ts,
        goroutines := (goroutines wp)[i := Publishing (processTask env (ctx_done wp) t)]\<rparr>"
      by (auto simp: worker_receive_def)
    from alive_update_keep [OF i(1) ne, of "Publishing (processTask env (ctx_done wp) t)"]
    have "alive wp' = alive wp" by (simp add: alive_def wp')
    with assms(1) g j show ?thesis by (auto simp: waiting_def wp')
  qed
next
  case (WorkerSend i)
  have "chan_send (results wp) (results_closed wp) r = Blocked" for r
    using assms(1) by (simp add: waiting_def chan_send_def)
  then have "worker_send wp i = Blocked"
    by (simp add: worker_send_def split: wstate.splits)
  with WorkerSend assms(3) show ?thesis by simp
next
  case (WorkerDone i)
  have "worker_done wp i = Blocked"
    using assms(1) by (simp add: worker_done_def waiting_def split: wstate.splits)
  with WorkerDone assms(3) show ?thesis by simp
qed

lemma waiting_exec:
  "waiting wp \<Longrightarrow> ReceiveResult \<notin> set es \<Longrightarrow> exec env es wp = Next wp' \<Longrightarrow> waiting wp'"
proof (induction es arbitrary: wp)
  case Nil
  then show ?case by simp
next
  case (Cons e es)
  then obtain wp1 where s: "step env wp e = Next wp1" and r: "exec env es wp1 = Next wp'"
    by (auto split: outcome.splits)
  from Cons.prems have "e \<noteq> ReceiveResult" "ReceiveResult \<notin> set es" by auto
  with Cons.prems(1) s have "waiting wp1" using waiting_step by blast
  then show ?case using \<open>ReceiveResult \<notin> set es\<close> r by (rule Cons.IH)
qed

subsection \<open>Cancellation comes after the close\<close>

text \<open>
  In every state that a run of a new pool reaches, a done context means a closed task
  channel; then both cases of the \<open>select\<close> in \<open>AddTask\<close> can proceed, and one of them
  panics.
\<close>

lemma cancel_closed_step:
  assumes "cancel_closed wp" and "step env wp e = Next wp'"
  shows "cancel_closed wp'"
proof (cases e)
  case CallStart
  with assms show ?thesis by (auto simp: cancel_closed_def WorkerPool_Start_def)
next
  case (CallAddTaskSend t)
  with assms show ?thesis
    by (auto simp: cancel_closed_def AddTask_send_def chan_send_def split: if_splits)
next
  case (CallAddTaskDone t)
  with assms show ?thesis by (auto simp: cancel_closed_def AddTask_done_def split: if_splits)
next
  case CallStop
  with assms show ?thesis by (auto simp: cancel_closed_def Stop_begin_def split: if_splits)
next
  case ReceiveResult
  with assms show ?thesis by (auto simp: cancel_closed_def split: list.splits if_splits)
next
  case (StopStep k)
  with assms show ?thesis
    by (auto simp: cancel_closed_def Stop_step_def split: if_splits stop_pc.splits)
next
  case (WorkerReceive i)
  with assms show ?thesis
    by (auto simp: cancel_closed_def worker_receive_def split: if_splits list.splits)
next
  case (WorkerSend i)
  with assms show ?thesis
    by (auto simp: cancel_closed_def worker_send_def chan_send_def split: if_splits wstate.splits)
next
  case (WorkerDone i)
  with assms show ?thesis
    by (auto simp: cancel_closed_def worker_done_def split: if_splits wstate.splits)
qed

lemma cancel_closed_exec:
  "cancel_closed wp \<Longrightarrow> exec env es wp = Next wp' \<Longrightarrow> cancel_closed wp'"
proof (induction es arbitrary: wp)
  case Nil
  then show ?case by simp
next
  case (Cons e es)
  then obtain wp1 where s: "step env wp e = Next wp1" and r: "exec env es wp1 = Next wp'"
    by (auto split: outcome.splits)
  from Cons.prems(1) s have "cancel_closed wp1" by (rule cancel_closed_step)
  then show ?case using r by (rule Cons.IH)
qed

lemma cancel_only_after_close:
  assumes "exec env es (NewWorkerPool n) = Next wp" and "ctx_done wp"
  shows "tasks_closed wp"
proof -
  have "cancel_closed (NewWorkerPool n)" "stop_closed (NewWorkerPool n)"
    by (simp_all add: cancel_closed_def stop_closed_def NewWorkerPool_def)
  with assms(1) have "cancel_closed wp" "stop_closed wp"
    using cancel_closed_exec stop_closed_exec by blast+
  with assms(2) show ?thesis by (auto simp: cancel_closed_def stop_closed_def)
qed

lemma AddTask_drop_only_with_panic:
  assumes "exec env es (NewWorkerPool n) = Next wp" and "ctx_done wp"
  shows "AddTask wp task = [Panic, Next wp]"
  using cancel_only_after_close [OF assms] assms(2)
  by (simp add: AddTask_def AddTask_send_def AddTask_done_def chan_send_def)

section \<open>Stop with unread results\<close>

text \<open>
  Claim C1 asks that \<open>Stop\<close> returns also when the results are never read, a worker
  blocked at its publish seeing the cancellation. \<open>Stop\<close> calls \<open>wp.cancel()\<close> only
  after \<open>wp.wg.Wait()\<close> has returned. In the run \<open>unread_schedule\<close> (one worker, 101
  tasks, no result read) the worker stands at its \<open>select\<close> with the result buffer full
  when \<open>Stop\<close> reaches \<open>Wait\<close>. In that state no step of \<open>Stop\<close> or of the worker can
  proceed, and whatever the callers do next, short of reading a result, no call of
  \<open>Stop\<close> ever returns.
\<close>

theorem C1_stop_never_returns:
  "\<exists>wp. exec env unread_schedule (NewWorkerPool 1) = Next wp \<and>
      stops wp = [AtWait] \<and> length (results wp) = 100 \<and>
      (\<forall>e. internal e \<longrightarrow> step env wp e = Blocked) \<and>
      (\<forall>es wp'. ReceiveResult \<notin> set es \<and> exec env es wp = Next wp'
          \<longrightarrow> Returned \<notin> set (stops wp'))"
proof -
  obtain wp where r: "exec env unread_schedule (NewWorkerPool 1) = Next wp" and s: "stuck wp"
    using unread_schedule_stuck by blast
  have b: "step env wp e = Blocked" if "internal e" for e
    using s that by (rule stuck_blocked)
  have "Returned \<notin> set (stops wp')"
    if "ReceiveResult \<notin> set es" "exec env es wp = Next wp'" for es wp'
  proof -
    have "waiting wp" using s by (rule stuck_waiting)
    then have "waiting wp'" using that by (rule waiting_exec)
    then show ?thesis by (auto simp: waiting_def)
  qed
  with r s b show ?thesis by (auto simp: stuck_def chan_cap_def)
qed

theorem C1_stop_never_returns_witness:
  "\<exists>wp. exec offline_env unread_schedule (NewWorkerPool 1) = Next wp \<and>
      stops wp = [AtWait] \<and>
      step offline_env wp (StopStep 0) = Blocked \<and>
      step offline_env wp (WorkerSend 0) = Blocked \<and>
      step offline_env wp (WorkerDone 0) = Blocked \<and>
      exec offline_env [CallStart] wp = Next (WorkerPool_Start wp) \<and>
      Returned \<notin> set (stops (WorkerPool_Start wp))"
proof -
  obtain wp where
    r: "exec offline_env unread_schedule (NewWorkerPool 1) = Next wp" "stops wp = [AtWait]"
    and b: "\<forall>e. internal e \<longrightarrow> step offline_env wp e = Blocked"
    and n: "\<forall>es wp'. ReceiveResult \<notin> set es \<and> exec offline_env es wp = Next wp'
              \<longrightarrow> Returned \<notin> set (stops wp')"
    using C1_stop_never_returns [of offline_env] by blast
  have "internal (StopStep 0)" "internal (WorkerSend 0)" "internal (WorkerDone 0)" by simp_all
  with b have s: "step offline_env wp (StopStep 0) = Blocked"
    "step offline_env wp (WorkerSend 0) = Blocked"
    "step offline_env wp (WorkerDone 0) = Blocked" by blast+
  have e: "exec offline_env [CallStart] wp = Next (WorkerPool_Start wp)" by simp
  moreover have "ReceiveResult \<notin> set [CallStart]" by simp
  ultimately have "Returned \<notin> set (stops (WorkerPool_Start wp))" using n by blast
  with r s e show ?thesis by blast
qed

section \<open>Properties of the repository update\<close>

lemma UpdateSSLInfo_present:
  assumes "db domainID = Some row" and "\<forall>e. fault \<noteq> ExecFault e"
  shows "fst (UpdateSSLInfo fault now db domainID expiryDate lastError)
           = db(domainID \<mapsto> row\<lparr>expiry_date := expiryDate, last_checked := Some now,
                                  last_error := lastError\<rparr>)"
  using assms by (cases fault) (simp_all add: UpdateSSLInfo_def)

lemma UpdateSSLInfo_unchanged:
  assumes "(\<exists>e. fault = ExecFault e) \<or> db domainID = None"
  shows "fst (UpdateSSLInfo fault now db domainID expiryDate lastError) = db"
  using assms by (cases fault) (auto simp: UpdateSSLInfo_def)

text \<open>
  Claim C2 as stated fails: a failed check writes NULL over the stored expiry date. Row 1
  holds the expiry date 1000; after the handler has processed a result that carries an
  error for domain 1, the row's expiry date is NULL.
\<close>

theorem C2_counterexample:
  "map_option (\<lambda>db. map_option expiry_date (db 1))
     (result_handler NoFault 2000
        [1 \<mapsto> \<lparr>user_id = 1, domain_name = ''example.com'', created_at = 0,
                expiry_date = Some 1000, last_checked = None, last_error = None,
                is_active = True\<rparr>]
        \<lparr>res_Task = \<lparr>task_Domain = ''example.com'', task_DomainID = 1, task_UserID = 1\<rparr>,
         res_Certificate = None,
         res_Error = Some (ConnectError ''example.com'' (Failure ''connection refused'')),
         res_CheckedAt = 1999\<rparr>)
   = Some (Some None)"
  by (simp add: result_handler_def UpdateSSLInfo_def DomainID_of_int_def)

text \<open>
  Claim C2, amended. A result that carries an error makes the handler issue the update
  with a NULL expiry date: when the statement is executed and the domain has a row, the
  row's expiry date becomes NULL, whatever it was, its last error the error's message and
  its last-checked time the current time; when \<open>db.Exec\<close> fails, or no row has the
  task's id, the table is left as it was (the handler discards the error that
  \<open>UpdateSSLInfo\<close> returns). A result without an error does the same with the
  certificate's expiry date and a NULL last error. Nothing else in the row and no other
  row changes.
\<close>

theorem C2_handler_update:
  "(\<forall>err. res_Error result = Some err \<longrightarrow>
      ((\<forall>e. fault \<noteq> ExecFault e) \<and>
       db (DomainID_of_int (task_DomainID (res_Task result))) = Some row \<longrightarrow>
         result_handler fault now db result
           = Some (db(DomainID_of_int (task_DomainID (res_Task result)) \<mapsto>
                     row\<lparr>expiry_date := None, last_checked := Some now,
                         last_error := Some (Error_string err)\<rparr>))) \<and>
      ((\<exists>e. fault = ExecFault e) \<or>
       db (DomainID_of_int (task_DomainID (res_Task result))) = None \<longrightarrow>
         result_handler fault now db result = Some db)) \<and>
   (\<forall>cert. res_Error result = None \<and> res_Certificate result = Some cert \<longrightarrow>
      ((\<forall>e. fault \<noteq> ExecFault e) \<and>
       db (DomainID_of_int (task_DomainID (res_Task result))) = Some row \<longrightarrow>
         result_handler fault now db result
           = Some (db(DomainID_of_int (task_DomainID (res_Task result)) \<mapsto>
                     row\<lparr>expiry_date := Some (ExpiryDate cert), last_checked := Some now,
                         last_error := None\<rparr>))) \<and>
      ((\<exists>e. fault = ExecFault e) \<or>
       db (DomainID_of_int (task_DomainID (res_Task result))) = None \<longrightarrow>
         result_handler fault now db result = Some db))"
  by (simp add: result_handler_def UpdateSSLInfo_present UpdateSSLInfo_unchanged)

theorem C2_handler_update_witness:
  "result_handler NoFault 2000
     [1 \<mapsto> \<lparr>user_id = 1, domain_name = ''example.com'', created_at = 0,
             expiry_date = Some 1000, last_checked = None, last_error = None,
             is_active = True\<rparr>]
     \<lparr>res_Task = \<lparr>task_Domain = ''example.com'', task_DomainID = 1, task_UserID = 1\<rparr>,
      res_Certificate = None, res_Error = Some EmptyHostnameErr, res_CheckedAt = 1999\<rparr>
   = Some [1 \<mapsto> \<lparr>user_id = 1, domain_name = ''example.com'', created_at = 0,
                   expiry_date = None, last_checked = Some 2000,
                   last_error = Some ''hostname cannot be empty'', is_active = True\<rparr>]
   \<and>
   result_handler (ExecFault ''database is locked'') 2000
     [1 \<mapsto> \<lparr>user_id = 1, domain_name = ''example.com'', created_at = 0,
             expiry_date = Some 1000, last_checked = None, last_error = None,
             is_active = True\<rparr>]
     \<lparr>res_Task = \<lparr>task_Domain = ''example.com'', task_DomainID = 1, task_UserID = 1\<rparr>,
      res_Certificate = None, res_Error = Some EmptyHostnameErr, res_CheckedAt = 1999\<rparr>
   = Some [1 \<mapsto> \<lparr>user_id = 1, domain_name = ''example.com'', created_at = 0,
                   expiry_date = Some 1000, last_checked = None, last_error = None,
                   is_active = True\<rparr>]
   \<and>
   result_handler NoFault 2000
     [1 \<mapsto> \<lparr>user_id = 1, domain_name = ''example.com'', created_at = 0,
             expiry_date = Some 1000, last_checked = None, last_error = Some ''x'',
             is_active = True\<rparr>]
     \<lparr>res_Task = \<lparr>task_Domain = ''example.com'', task_DomainID = 1, task_UserID = 1\<rparr>,
      res_Certificate = Some \<lparr>Hostname = ''example.com'', ExpiryDate = 5000, TimeLeft = 0\<rparr>,
      res_Error = None, res_CheckedAt = 1999\<rparr>
   = Some [1 \<mapsto> \<lparr>user_id = 1, domain_name = ''example.com'', created_at = 0,
                   expiry_date = Some 5000, last_checked = Some 2000,
                   last_error = None, is_active = True\<rparr>]"
  using
    C2_handler_update [of
      "\<lparr>res_Task = \<lparr>task_Domain = ''example.com'', task_DomainID = 1, task_UserID = 1\<rparr>,
        res_Certificate = None, res_Error = Some EmptyHostnameErr, res_CheckedAt = 1999\<rparr>"
      NoFault
      "[1 \<mapsto> \<lparr>user_id = 1, domain_name = ''example.com'', created_at = 0,
              expiry_date = Some 1000, last_checked = None, last_error = None,
              is_active = True\<rparr>]"
      "\<lparr>user_id = 1, domain_name = ''example.com'', created_at = 0,
        expiry_date = Some 1000, last_checked = None, last_error = None,
        is_active = True\<rparr>" 2000]
    C2_handler_update [of
      "\<lparr>res_Task = \<lparr>task_Domain = ''example.com'', task_DomainID = 1, task_UserID = 1\<rparr>,
        res_Certificate = None, res_Error = Some EmptyHostnameErr, res_CheckedAt = 1999\<rparr>"
      "ExecFault ''database is locked''"
      "[1 \<mapsto> \<lparr>user_id = 1, domain_name = ''example.com'', created_at = 0,
              expiry_date = Some 1000, last_checked = None, last_error = None,
              is_active = True\<rparr>]"
      "\<lparr>user_id = 1, domain_name = ''example.com'', created_at = 0,
        expiry_date = Some 1000, last_checked = None, last_error = None,
        is_active = True\<rparr>" 2000]
    C2_handler_update [of
      "\<lparr>res_Task = \<lparr>task_Domain = ''example.com'', task_DomainID = 1, task_UserID = 1\<rparr>,
        res_Certificate = Some \<lparr>Hostname = ''example.com'', ExpiryDate = 5000, TimeLeft = 0\<rparr>,
        res_Error = None, res_CheckedAt = 1999\<rparr>"
      NoFault
      "[1 \<mapsto> \<lparr>user_id = 1, domain_name = ''example.com'', created_at = 0,
              expiry_date = Some 1000, last_checked = None, last_error = Some ''x'',
              is_active = True\<rparr>]"
      "\<lparr>user_id = 1, domain_name = ''example.com'', created_at = 0,
        expiry_date = Some 1000, last_checked = None, last_error = Some ''x'',
        is_active = True\<rparr>" 2000]
  by (simp add: DomainID_of_int_def)

section \<open>The prober and its context\<close>



section \<open>Days remaining\<close>

text \<open>
  Claim C4 as stated fails for a certificate that expires while it is being probed. The
  handshake verifies the certificate at time 0, when it has one second left; \<open>time.Until\<close>
  reads the clock one and a half seconds after that. The probe succeeds, \<open>notAfter\<close> is
  then half a second in the past, and the days remaining are 0, which is neither negative
  nor the floor of the quotient.
\<close>

theorem C4_counterexample:
  "CheckSSLCertificate expiring_env Never ''example.com''
     = ([Connect ''example.com:443'', TLSHandshake ''example.com'', CloseClient, CloseConn],
        Some \<lparr>Hostname = ''example.com'', ExpiryDate = 1000000000, TimeLeft = 0\<rparr>,
        None) \<and>
   (1000000000::int) < now_until expiring_env \<and>
   \<lfloor>(of_int (1000000000 - now_until expiring_env) / 3600000000000 :: rat) / 24\<rfloor> = - 1"
proof (intro conjI)
  show "CheckSSLCertificate expiring_env Never ''example.com''
     = ([Connect ''example.com:443'', TLSHandshake ''example.com'', CloseClient, CloseConn],
        Some \<lparr>Hostname = ''example.com'', ExpiryDate = 1000000000, TimeLeft = 0\<rparr>,
        None)"
    by (simp add: CheckSSLCertificate_def IsValid_example expiring_env_def JoinHostPort_def
        DialContext_def DialTimeout_def HandshakeContext_def Handshake_def timeLeft_expiring)
  show "(1000000000::int) < now_until expiring_env" by (simp add: expiring_env_def)
  show "\<lfloor>(of_int (1000000000 - now_until expiring_env) / 3600000000000 :: rat) / 24\<rfloor>
          = - 1"
    by (rule floor_unique) (simp_all add: expiring_env_def)
qed

text \<open>
  Claim C4, amended. A probe succeeds only if the handshake found the certificate within
  its validity period, so \<open>notAfter\<close> is not before the time of the handshake. The days
  remaining are the float64 quotient of \<open>time.Until(notAfter).Hours()\<close> by 24 with its
  fraction discarded. When \<open>notAfter\<close> is not in the past as \<open>time.Until\<close> reads the clock,
  this is the floor of that quotient and not negative; a certificate expiring at least
  10 and less than 11 days after that time yields 10. When \<open>notAfter\<close> is in the past by
  then, the certificate having expired since the handshake, the value is 0 as long as
  less than 24 hours have passed since \<open>notAfter\<close>; it is negative only if at least 24
  hours lie between the handshake and the reading of the clock.
\<close>

theorem C4_days_remaining:
  "CheckSSLCertificate env ctx h = (trace, Some cert, None) \<longrightarrow>
     TimeLeft cert
       = float_to_int (f64 (Hours (Until (now_until env) (ExpiryDate cert)) / 24)) \<and>
     now_handshake env \<le> ExpiryDate cert \<and>
     (now_until env \<le> ExpiryDate cert \<longrightarrow>
        TimeLeft cert = \<lfloor>f64 (Hours (Until (now_until env) (ExpiryDate cert)) / 24)\<rfloor> \<and>
        0 \<le> TimeLeft cert) \<and>
     (now_until env + 864000000000000 \<le> ExpiryDate cert \<and>
      ExpiryDate cert < now_until env + 950400000000000 \<longrightarrow> TimeLeft cert = 10) \<and>
     (ExpiryDate cert < now_until env \<and> now_until env - 86400000000000 < ExpiryDate cert
        \<longrightarrow> TimeLeft cert = 0) \<and>
     (TimeLeft cert < 0 \<longleftrightarrow> ExpiryDate cert \<le> now_until env - 86400000000000) \<and>
     (TimeLeft cert < 0 \<longrightarrow> now_handshake env + 86400000000000 \<le> now_until env)"
proof
  assume "CheckSSLCertificate env ctx h = (trace, Some cert, None)"
  from CheckSSLCertificate_success [OF this]
  have t: "TimeLeft cert = timeLeft (now_until env) (ExpiryDate cert)"
    and v: "now_handshake env \<le> ExpiryDate cert" by auto
  have neg: "TimeLeft cert < 0 \<longleftrightarrow> ExpiryDate cert \<le> now_until env - 86400000000000"
    using timeLeft_negative_iff [of "now_until env" "ExpiryDate cert"] t by simp
  have zero: "TimeLeft cert = 0"
    if "ExpiryDate cert < now_until env" "now_until env - 86400000000000 < ExpiryDate cert"
    using that neg timeLeft_nonpos [of "ExpiryDate cert" "now_until env"] t by simp
  show "TimeLeft cert
       = float_to_int (f64 (Hours (Until (now_until env) (ExpiryDate cert)) / 24)) \<and>
     now_handshake env \<le> ExpiryDate cert \<and>
     (now_until env \<le> ExpiryDate cert \<longrightarrow>
        TimeLeft cert = \<lfloor>f64 (Hours (Until (now_until env) (ExpiryDate cert)) / 24)\<rfloor> \<and>
        0 \<le> TimeLeft cert) \<and>
     (now_until env + 864000000000000 \<le> ExpiryDate cert \<and>
      ExpiryDate cert < now_until env + 950400000000000 \<longrightarrow> TimeLeft cert = 10) \<and>
     (ExpiryDate cert < now_until env \<and> now_until env - 86400000000000 < ExpiryDate cert
        \<longrightarrow> TimeLeft cert = 0) \<and>
     (TimeLeft cert < 0 \<longleftrightarrow> ExpiryDate cert \<le> now_until env - 86400000000000) \<and>
     (TimeLeft cert < 0 \<longrightarrow> now_handshake env + 86400000000000 \<le> now_until env)"
  proof (intro conjI impI)
    show "TimeLeft cert
       = float_to_int (f64 (Hours (Until (now_until env) (ExpiryDate cert)) / 24))"
      using t by (simp add: timeLeft_def)
    show "now_handshake env \<le> ExpiryDate cert" by (rule v)
    show "TimeLeft cert = \<lfloor>f64 (Hours (Until (now_until env) (ExpiryDate cert)) / 24)\<rfloor>"
      if "now_until env \<le> ExpiryDate cert"
      using timeLeft_floor [OF that] t by simp
    show "0 \<le> TimeLeft cert" if "now_until env \<le> ExpiryDate cert"
      using timeLeft_nonneg [OF that] t by simp
    show "TimeLeft cert = 10"
      if "now_until env + 864000000000000 \<le> ExpiryDate cert \<and>
          ExpiryDate cert < now_until env + 950400000000000"
      using timeLeft_10_days [of "now_until env" "ExpiryDate cert"] that t by simp
    show "TimeLeft cert = 0"
      if "ExpiryDate cert < now_until env \<and>
          now_until env - 86400000000000 < ExpiryDate cert"
      using zero that by simp
    show "TimeLeft cert < 0 \<longleftrightarrow> ExpiryDate cert \<le> now_until env - 86400000000000"
      by (rule neg)
    show "now_handshake env + 86400000000000 \<le> now_until env" if "TimeLeft cert < 0"
      using that neg v by simp
  qed
qed

theorem C4_days_remaining_witness:
  "CheckSSLCertificate reachable_env Never ''example.com''
     = ([Connect ''example.com:443'', TLSHandshake ''example.com'', CloseClient, CloseConn],
        Some \<lparr>Hostname = ''example.com'', ExpiryDate = 864000000000000, TimeLeft = 10\<rparr>,
        None) \<and>
   (10::int) = \<lfloor>f64 (Hours (Until 0 864000000000000) / 24)\<rfloor> \<and>
   CheckSSLCertificate expiring_env Never ''example.com''
     = ([Connect ''example.com:443'', TLSHandshake ''example.com'', CloseClient, CloseConn],
        Some \<lparr>Hostname = ''example.com'', ExpiryDate = 1000000000, TimeLeft = 0\<rparr>,
        None) \<and>
   (0::int) = float_to_int (f64 (Hours (Until 1500000000 1000000000) / 24))"
proof -
  have c: "CheckSSLCertificate expiring_env Never ''example.com''
     = ([Connect ''example.com:443'', TLSHandshake ''example.com'', CloseClient, CloseConn],
        Some \<lparr>Hostname = ''example.com'', ExpiryDate = 1000000000, TimeLeft = 0\<rparr>,
        None)"
    by (simp add: CheckSSLCertificate_def IsValid_example expiring_env_def JoinHostPort_def
        DialContext_def DialTimeout_def HandshakeContext_def Handshake_def timeLeft_expiring)
  show ?thesis
    using c CheckSSLCertificate_reachable
      C4_days_remaining [of reachable_env Never "''example.com''"
        "[Connect ''example.com:443'', TLSHandshake ''example.com'', CloseClient, CloseConn]"
        "\<lparr>Hostname = ''example.com'', ExpiryDate = 864000000000000, TimeLeft = 10\<rparr>"]
      C4_days_remaining [of expiring_env Never "''example.com''"
        "[Connect ''example.com:443'', TLSHandshake ''example.com'', CloseClient, CloseConn]"
        "\<lparr>Hostname = ''example.com'', ExpiryDate = 1000000000, TimeLeft = 0\<rparr>"]
    by (simp add: reachable_env_def expiring_env_def)
qed

section \<open>AddTask\<close>

text \<open>
  Claim C5 as stated fails. After \<open>Stop\<close> has run, the task channel is closed and the
  context is done, so both cases of the \<open>select\<close> in \<open>AddTask\<close> can proceed, and the
  send case panics. And on a pool that was never started, \<open>AddTask\<close> enqueues the task
  rather than dropping it.
\<close>

theorem C5_counterexample:
  "exec offline_env [CallStart, CallStop, StopStep 0, StopStep 0, StopStep 0] (NewWorkerPool 0)
     = Next \<lparr>tasks = [], tasks_closed = True, results = [], results_closed = True,
             workers = 0, wg = 0, ctx_done = True, goroutines = [], stops = [Returned]\<rparr> \<and>
   AddTask \<lparr>tasks = [], tasks_closed = True, results = [], results_closed = True,
            workers = 0, wg = 0, ctx_done = True, goroutines = [], stops = [Returned]\<rparr>
     empty_task
     = [Panic,
        Next \<lparr>tasks = [], tasks_closed = True, results = [], results_closed = True,
              workers = 0, wg = 0, ctx_done = True, goroutines = [], stops = [Returned]\<rparr>] \<and>
   AddTask (NewWorkerPool 3) empty_task = [Next ((NewWorkerPool 3)\<lparr>tasks := [empty_task]\<rparr>)]"
  using stop_run
  by (simp add: AddTask_def AddTask_send_def AddTask_done_def chan_send_def chan_cap_def
      NewWorkerPool_def)

text \<open>
  Claim C5, amended. While the task channel is open, \<open>AddTask\<close> never panics: it enqueues
  the task whenever the queue has room, whether or not the pool has been started; with a
  full queue it blocks until there is room or the cancellation signal fires; and it drops
  the task only through the cancellation case.
\<close>

theorem C5_add_task_open_queue:
  "\<not> tasks_closed wp \<longrightarrow>
     AddTask wp task =
       (if length (tasks wp) < chan_cap then [Next (wp\<lparr>tasks := tasks wp @ [task]\<rparr>)] else [])
       @ (if ctx_done wp then [Next wp] else [])"
  by (simp add: AddTask_def AddTask_send_def AddTask_done_def chan_send_def)

theorem C5_add_task_open_queue_witness:
  "\<not> tasks_closed (WorkerPool_Start (NewWorkerPool 5)) \<and>
   AddTask (WorkerPool_Start (NewWorkerPool 5)) empty_task
     = [Next ((WorkerPool_Start (NewWorkerPool 5))\<lparr>tasks := [empty_task]\<rparr>)] \<and>
   \<not> tasks_closed ((NewWorkerPool 0)\<lparr>tasks := replicate 100 empty_task\<rparr>) \<and>
   AddTask ((NewWorkerPool 0)\<lparr>tasks := replicate 100 empty_task\<rparr>) empty_task = []"
  using C5_add_task_open_queue [of "WorkerPool_Start (NewWorkerPool 5)" empty_task]
    C5_add_task_open_queue [of "(NewWorkerPool 0)\<lparr>tasks := replicate 100 empty_task\<rparr>" empty_task]
  by (simp add: NewWorkerPool_def WorkerPool_Start_def chan_cap_def)

section \<open>Properties of the certificate service\<close>

lemma CertService_Start_started: "started (CertService_Start cs)"
  by (simp add: CertService_Start_def)

lemma CertService_Start_noop: "started cs \<Longrightarrow> CertService_Start cs = cs"
  by (simp add: CertService_Start_def)

lemma CertService_Start_funpow:
  "(CertService_Start ^^ Suc n) cs = CertService_Start cs"
proof (induction n)
  case 0
  show ?case by simp
next
  case (Suc n)
  have "(CertService_Start ^^ Suc (Suc n)) cs = CertService_Start ((CertService_Start ^^ Suc n) cs)"
    by simp
  also have "\<dots> = CertService_Start (CertService_Start cs)"
    using Suc.IH by simp
  also have "\<dots> = CertService_Start cs"
    by (rule CertService_Start_noop) (rule CertService_Start_started)
  finally show ?case .
qed

text \<open>
  Claim C6. \<open>CertService.Start\<close> is idempotent: any positive number of calls in a row
  leaves the service in the state the first call produced. On a new service that state
  has the pool started once (its 20 workers, wait group at 20) and exactly one
  result-draining loop.
\<close>

theorem C6_start_idempotent:
  "(CertService_Start ^^ Suc n) (cs :: 'h CertService) = CertService_Start cs
   \<and> CertService_Start (CertService_Start cs) = CertService_Start cs
   \<and> drain_loops ((CertService_Start ^^ Suc n) (NewCertService :: 'h CertService)) = 1
   \<and> goroutines (pool ((CertService_Start ^^ Suc n) (NewCertService :: 'h CertService)))
       = replicate 20 Receiving
   \<and> wg (pool ((CertService_Start ^^ Suc n) (NewCertService :: 'h CertService))) = 20"
proof -
  have a: "(CertService_Start ^^ Suc n) cs = CertService_Start cs" for cs :: "'h CertService"
    by (rule CertService_Start_funpow)
  have b: "CertService_Start (CertService_Start cs) = CertService_Start cs"
    by (rule CertService_Start_noop) (rule CertService_Start_started)
  have c: "drain_loops (CertService_Start (NewCertService :: 'h CertService)) = 1"
    by (simp add: CertService_Start_def NewCertService_def)
  have d: "goroutines (pool (CertService_Start (NewCertService :: 'h CertService)))
             = replicate 20 Receiving"
    by (simp add: CertService_Start_def NewCertService_def WorkerPool_Start_def NewWorkerPool_def)
  have e: "wg (pool (CertService_Start (NewCertService :: 'h CertService))) = 20"
    by (simp add: CertService_Start_def NewCertService_def WorkerPool_Start_def NewWorkerPool_def)
  show ?thesis
    unfolding a using b c d e by simp
qed


section \<open>The rules of the hostname validator\<close>

text \<open>
  Claim C7. \<open>ValidateHostname\<close> applies its rules in order, the first failure winning:
  a string that is empty or white space only gets the Empty error; any other string of
  more than 253 bytes gets the TooLong error; any other string is accepted exactly when
  it satisfies the label grammar as the specification words it (\<open>spec_hostname\<close>). The
  function is a function of the string alone: it has no network to consult.
\<close>

theorem C7_validator_rules:
  "(whitespace_only h \<longrightarrow> ValidateHostname h = Some EmptyHostnameErr) \<and>
   (\<not> whitespace_only h \<and> 253 < length h \<longrightarrow> ValidateHostname h = Some HostnameTooLongErr) \<and>
   (\<not> whitespace_only h \<and> length h \<le> 253 \<longrightarrow>
      (ValidateHostname h = None \<longleftrightarrow> spec_hostname h))"
  by (simp add: ValidateHostname_eq_simple ValidateHostname_simple_def TrimSpace_empty_iff
      spec_hostname_iff)

theorem C7_validator_rules_witness:
  "whitespace_only ''   '' \<and> ValidateHostname ''   '' = Some EmptyHostnameErr \<and>
   \<not> whitespace_only (replicate 254 CHR ''a'') \<and> 253 < length (replicate 254 CHR ''a'') \<and>
   ValidateHostname (replicate 254 CHR ''a'') = Some HostnameTooLongErr \<and>
   \<not> whitespace_only ''example.com'' \<and> length ''example.com'' \<le> 253 \<and>
   spec_hostname ''example.com'' \<and> ValidateHostname ''example.com'' = None \<and>
   \<not> whitespace_only ''example..com'' \<and> \<not> spec_hostname ''example..com'' \<and>
   ValidateHostname ''example..com'' \<noteq> None"
proof -
  have "TrimSpace ''   '' = []" by code_simp
  then have w1: "whitespace_only ''   ''" using TrimSpace_empty_iff by blast
  have w2: "\<not> whitespace_only (replicate 254 CHR ''a'')"
  proof
    assume "whitespace_only (replicate 254 CHR ''a'')"
    then have "whitespace_only (CHR ''a'' # replicate 253 CHR ''a'')"
      by (simp add: replicate_Suc [symmetric] del: replicate_Suc)
    then have "CHR ''a'' \<in> hd ` set space_encodings" by (rule whitespace_only_Cons)
    then show False by (simp add: space_encodings_def)
  qed
  have "TrimSpace ''example.com'' \<noteq> []" by code_simp
  then have w3: "\<not> whitespace_only ''example.com''" using TrimSpace_empty_iff by blast
  have "TrimSpace ''example..com'' \<noteq> []" by code_simp
  then have w4: "\<not> whitespace_only ''example..com''" using TrimSpace_empty_iff by blast
  have g1: "spec_hostname ''example.com''" by code_simp
  have g2: "\<not> spec_hostname ''example..com''" by code_simp
  show ?thesis
    using w1 w2 w3 w4 g1 g2
      C7_validator_rules [of "''   ''"] C7_validator_rules [of "replicate 254 CHR ''a''"]
      C7_validator_rules [of "''example.com''"] C7_validator_rules [of "''example..com''"]
    by simp
qed

section \<open>Results of the workers\<close>

text \<open>
  Claim C8. The \<open>Result\<close> that \<open>processTask\<close> builds for a task carries that task, and
  exactly one of its certificate and its error is present: the certificate is non-nil if
  and only if the error is nil. The prober of cert\_check.go, which \<open>processTask\<close> would
  call in its place, returns exactly one of the two as well.
\<close>

theorem C8_result_of_task:
  "res_Task (processTask env parent_done task) = task \<and>
   (res_Certificate (processTask env parent_done task) \<noteq> None
      \<longleftrightarrow> res_Error (processTask env parent_done task) = None) \<and>
   (fst (snd (CheckSSLCertificate_legacy env ctx hostname)) \<noteq> None
      \<longleftrightarrow> snd (snd (CheckSSLCertificate_legacy env ctx hostname)) = None)"
proof -
  have "res_Task (processTask env parent_done task) = task \<and>
   (res_Certificate (processTask env parent_done task) \<noteq> None
      \<longleftrightarrow> res_Error (processTask env parent_done task) = None)"
  proof (cases "NewHostname (task_Domain task)")
    case (Pair h err)
    show ?thesis
    proof (cases err)
      case None
      obtain trace certificate e where
        c: "CheckSSLCertificate env (WithTimeout env parent_done) h = (trace, certificate, e)"
        by (cases "CheckSSLCertificate env (WithTimeout env parent_done) h") auto
      with CheckSSLCertificate_present [of env "WithTimeout env parent_done" h]
      have "certificate \<noteq> None \<longleftrightarrow> e = None" by simp
      with Pair None c show ?thesis by (simp add: processTask_def)
    next
      case (Some a)
      with Pair show ?thesis by (simp add: processTask_def)
    qed
  qed
  then show ?thesis using CheckSSLCertificate_legacy_present [of env ctx hostname] by simp
qed

section \<open>The checks after the regular expression\<close>

text \<open>
  Claim C9. Every check of \<open>ValidateHostname\<close> after the match of the regular
  expression is unreachable: a string that matches contains no \<open>..\<close>, does not start
  or end with \<open>.\<close> or \<open>-\<close>, and each of its labels passes both tests of the loop, so
  the loop returns nil. Hence \<open>ValidateHostname\<close> never returns \<open>InvalidHostnameErr\<close>,
  and it equals the function made of the empty check, the length check and the match
  alone.
\<close>

theorem C9_later_checks_unreachable:
  "(MatchString validHostnameRegex s \<longrightarrow>
      \<not> Contains s ''..'' \<and>
      \<not> HasPrefix s ''.'' \<and> \<not> HasSuffix s ''.'' \<and>
      \<not> HasPrefix s ''-'' \<and> \<not> HasSuffix s ''-'' \<and>
      (\<forall>label\<in>set (Split s CHR ''.'').
          \<not> (length label = 0 \<or> 63 < length label) \<and>
          \<not> (HasPrefix label ''-'' \<or> HasSuffix label ''-'')) \<and>
      check_labels (Split s CHR ''.'') = None) \<and>
   ValidateHostname h \<noteq> Some InvalidHostnameErr \<and>
   ValidateHostname h \<in>
     {None, Some EmptyHostnameErr, Some HostnameTooLongErr, Some InvalidCharactersErr} \<and>
   ValidateHostname h = ValidateHostname_simple h"
proof -
  have "\<forall>label\<in>set (Split s CHR ''.'').
          \<not> (length label = 0 \<or> 63 < length label) \<and>
          \<not> (HasPrefix label ''-'' \<or> HasSuffix label ''-'')"
    if "MatchString validHostnameRegex s"
    using that label_ok_checks by (auto simp: MatchString_validHostnameRegex)
  moreover have "ValidateHostname h \<noteq> Some InvalidHostnameErr"
    by (simp add: ValidateHostname_eq_simple ValidateHostname_simple_def)
  moreover have "ValidateHostname h \<in>
      {None, Some EmptyHostnameErr, Some HostnameTooLongErr, Some InvalidCharactersErr}"
    by (simp add: ValidateHostname_eq_simple ValidateHostname_simple_def)
  ultimately show ?thesis
    using match_passes_later_checks [of s] ValidateHostname_eq_simple [of h] by blast
qed

theorem C9_later_checks_unreachable_witness:
  "MatchString validHostnameRegex ''example.com'' \<and>
   Split ''example.com'' CHR ''.'' = [''example'', ''com''] \<and>
   \<not> Contains ''example.com'' ''..'' \<and>
   check_labels (Split ''example.com'' CHR ''.'') = None \<and>
   ValidateHostname ''example..com'' = Some InvalidCharactersErr \<and>
   ValidateHostname ''-example.com'' = Some InvalidCharactersErr \<and>
   ValidateHostname_simple ''example.com'' = None"
proof -
  have m: "MatchString validHostnameRegex ''example.com''" by code_simp
  have s: "Split ''example.com'' CHR ''.'' = [''example'', ''com'']" by code_simp
  have a: "ValidateHostname_simple ''example..com'' = Some InvalidCharactersErr" by code_simp
  have b: "ValidateHostname_simple ''-example.com'' = Some InvalidCharactersErr" by code_simp
  have c: "ValidateHostname_simple ''example.com'' = None" by code_simp
  show ?thesis
    using m s a b c
      C9_later_checks_unreachable [of "''example.com''" "''example..com''"]
      C9_later_checks_unreachable [of "''example.com''" "''-example.com''"]
      C9_later_checks_unreachable [of "''example.com''" "''example.com''"]
    by simp
qed

section \<open>A second Stop\<close>

text \<open>
  Claim C10. \<open>Stop\<close> is not idempotent: in every state that a run of a new pool reaches
  and in which some call of \<open>Stop\<close> has returned, the task channel is closed, so the first
  statement of another call of \<open>Stop\<close>, \<open>close(wp.tasks)\<close>, panics.
\<close>

theorem C10_second_stop_panics:
  "exec env es (NewWorkerPool n) = Next wp \<and> Returned \<in> set (stops wp)
     \<longrightarrow> step env wp CallStop = Panic"
proof
  assume a: "exec env es (NewWorkerPool n) = Next wp \<and> Returned \<in> set (stops wp)"
  have "stop_closed (NewWorkerPool n)" by (simp add: stop_closed_def NewWorkerPool_def)
  with a have "stop_closed wp" using stop_closed_exec by blast
  with a have "tasks_closed wp" by (auto simp: stop_closed_def)
  then show "step env wp CallStop = Panic" by (simp add: Stop_begin_def)
qed

theorem C10_second_stop_panics_witness:
  "exec offline_env [CallStart, CallStop, StopStep 0, StopStep 0, StopStep 0] (NewWorkerPool 0)
     = Next \<lparr>tasks = [], tasks_closed = True, results = [], results_closed = True,
             workers = 0, wg = 0, ctx_done = True, goroutines = [], stops = [Returned]\<rparr> \<and>
   step offline_env
     \<lparr>tasks = [], tasks_closed = True, results = [], results_closed = True,
      workers = 0, wg = 0, ctx_done = True, goroutines = [], stops = [Returned]\<rparr> CallStop
     = Panic"
  using stop_run
    C10_second_stop_panics [of offline_env
      "[CallStart, CallStop, StopStep 0, StopStep 0, StopStep 0]" 0
      "\<lparr>tasks = [], tasks_closed = True, results = [], results_closed = True,
        workers = 0, wg = 0, ctx_done = True, goroutines = [], stops = [Returned]\<rparr>"]
  by simp

end
